theory Spec2Isabelle
  imports Main "HOL-Library.Multiset" "HOL-Library.Sublist"
begin

section \<open>The remote call and its errors\<close>

text \<open>
  \<^verbatim>\<open>contract.ownerOf(j)\<close> either returns an owner address or throws an error object.
  The handler reads three properties of the error: \<^verbatim>\<open>error.code\<close>, \<^verbatim>\<open>error.reason\<close>
  and \<^verbatim>\<open>error.message\<close>. A property that is undefined is \<open>None\<close>.
\<close>

record rpc_error =
  code :: "string option"
  reason :: "string option"
  message :: string

text \<open>
  The transport: what the call for token \<open>j\<close> answers at its \<open>k\<close>-th attempt (counted from 1),
  \<open>Inl\<close> a thrown error and \<open>Inr\<close> the owner.
  Every call of a run has its own pair \<open>(j, k)\<close>, so any behaviour of the endpoint during one
  run is such a function.
\<close>

type_synonym transport = "int \<Rightarrow> nat \<Rightarrow> rpc_error + string"

section \<open>Retry policy\<close>

text \<open>The options both scripts pass to \<^verbatim>\<open>retry.operation\<close>.\<close>

record retry_options =
  retries :: nat
  factor :: nat
  minTimeout :: nat
  maxTimeout :: nat

definition retryOptions :: retry_options where
  "retryOptions = \<lparr>retries = 10, factor = 2, minTimeout = 1000, maxTimeout = 8000\<rparr>"

text \<open>
  Modelled from the spec: the \<^verbatim>\<open>retry\<close> package (\<^verbatim>\<open>retry.operation\<close>,
  \<^verbatim>\<open>operation.attempt\<close>, \<^verbatim>\<open>operation.retry\<close>) is a dependency whose code is not among the
  sources. The spec's Retry Policy gives it two pure functions of the attempt index:
  the delay \<open>min (baseDelay * growthFactor ^ (k - 1)) maxDelay\<close> and exhaustion when the
  attempt index exceeds \<open>maxAttempts\<close>. Here \<open>baseDelay\<close>, \<open>growthFactor\<close> and \<open>maxDelay\<close> are
  the options \<open>minTimeout\<close>, \<open>factor\<close> and \<open>maxTimeout\<close>; \<open>retries\<close> counts the retries
  after the first attempt, so the budget of attempts is one more.
\<close>

definition maxAttempts :: "retry_options \<Rightarrow> nat" where
  "maxAttempts opts = Suc (retries opts)"

text \<open>
  Modelled from the spec: the delay for attempt \<open>k\<close> (counted from 1) of the Retry Policy,
  the \<^verbatim>\<open>retry\<close> package's timeout after the \<open>k\<close>-th failed attempt.
\<close>

definition nextDelay :: "retry_options \<Rightarrow> nat \<Rightarrow> nat" where
  "nextDelay opts k = min (minTimeout opts * factor opts ^ (k - 1)) (maxTimeout opts)"

text \<open>
  Modelled from the spec: the Retry Policy is exhausted when the attempt index exceeds
  \<open>maxAttempts\<close>; the \<^verbatim>\<open>retry\<close> package's \<^verbatim>\<open>operation.retry\<close> then returns false.
\<close>

definition isExhausted :: "retry_options \<Rightarrow> nat \<Rightarrow> bool" where
  "isExhausted opts attemptIndex \<longleftrightarrow> attemptIndex > maxAttempts opts"

section \<open>Call classifier\<close>

text \<open>\<^verbatim>\<open>String.prototype.includes\<close>: the argument occurs as a contiguous substring.\<close>

definition js_includes :: "string \<Rightarrow> string \<Rightarrow> bool" where
  "js_includes s sub = sublist sub s"

datatype classification = PermanentAbsence | Transient

text \<open>
  The condition of the first branch of the \<^verbatim>\<open>catch\<close> block:
  \<^verbatim>\<open>error.code === 'CALL_EXCEPTION' && error.reason && error.reason.includes('invalid token ID')\<close>.
  An undefined or empty \<^verbatim>\<open>reason\<close> is falsy.
\<close>

definition classify :: "rpc_error \<Rightarrow> classification" where
  "classify e =
     (if code e = Some ''CALL_EXCEPTION'' \<and>
         (case reason e of None \<Rightarrow> False
          | Some r \<Rightarrow> r \<noteq> [] \<and> js_includes r ''invalid token ID'')
      then PermanentAbsence else Transient)"

section \<open>Lines written to the console and to the error log\<close>

text \<open>A token id inside a template literal: its decimal digits, with a sign when negative.\<close>

fun decimal :: "nat \<Rightarrow> string" where
  "decimal n = (if n < 10 then [''0123456789'' ! n]
                else decimal (n div 10) @ [''0123456789'' ! (n mod 10)])"

declare decimal.simps [simp del]

definition toString :: "int \<Rightarrow> string" where
  "toString j = (if j < 0 then ''-'' @ decimal (nat (- j)) else decimal (nat j))"

definition warn_line :: "int \<Rightarrow> string" where
  "warn_line j = ''Token ID '' @ toString j @ '' is invalid.''"

definition failed_line :: "int \<Rightarrow> string \<Rightarrow> string" where
  "failed_line j msg = ''Failed to fetch owner for token ID '' @ toString j @ '': '' @ msg"

definition error_line :: "int \<Rightarrow> string \<Rightarrow> string" where
  "error_line j msg = ''Error fetching owner for token ID '' @ toString j @ '': '' @ msg @ [CHR 0x0A]"

section \<open>Item fetcher\<close>

text \<open>
  The state of one token's fetch. Every state carries the number of attempts started so
  far (the operation's attempt counter):
  \<^item> \<open>InFlight k\<close>: the \<open>k\<close>-th call of \<^verbatim>\<open>ownerOf\<close> is awaited;
  \<^item> \<open>RetryScheduled k d\<close>: the \<open>k\<close>-th call failed, \<^verbatim>\<open>operation.retry\<close> returned true and
    its timer of \<open>d\<close> milliseconds is pending;
  \<^item> \<open>Succeeded k owner\<close>, \<open>Absent k\<close>, \<open>Failed k msg\<close>: the three branches that call
    \<^verbatim>\<open>resolve()\<close>.
\<close>

datatype item_state =
    InFlight nat
  | RetryScheduled nat nat
  | Succeeded nat string
  | Absent nat
  | Failed nat string

fun terminal :: "item_state \<Rightarrow> bool" where
  "terminal (InFlight k) = False"
| "terminal (RetryScheduled k d) = False"
| "terminal (Succeeded k owner) = True"
| "terminal (Absent k) = True"
| "terminal (Failed k msg) = True"

fun attemptsMade :: "item_state \<Rightarrow> nat" where
  "attemptsMade (InFlight k) = k"
| "attemptsMade (RetryScheduled k d) = k"
| "attemptsMade (Succeeded k owner) = k"
| "attemptsMade (Absent k) = k"
| "attemptsMade (Failed k msg) = k"

text \<open>
  \<^verbatim>\<open>operation.retry(error)\<close> after the \<open>k\<close>-th attempt is \<open>\<not> isExhausted opts (Suc k)\<close>, and
  the timer it starts has the delay \<open>nextDelay opts k\<close>.

  What the callback of \<^verbatim>\<open>operation.attempt\<close> decides when the \<open>k\<close>-th call has answered
  \<open>r\<close>: the \<^verbatim>\<open>try\<close> branch, then the three branches of the \<^verbatim>\<open>catch\<close> block in their order.
\<close>

definition settle :: "retry_options \<Rightarrow> nat \<Rightarrow> rpc_error + string \<Rightarrow> item_state" where
  "settle opts k r =
     (case r of
        Inr owner \<Rightarrow> Succeeded k owner
      | Inl e \<Rightarrow>
          if classify e = PermanentAbsence then Absent k
          else if \<not> isExhausted opts (Suc k) then RetryScheduled k (nextDelay opts k)
          else Failed k (message e))"

text \<open>
  One token's fetch run on its own from its \<open>k\<close>-th attempt to its terminal state, the
  answers of the calls given by \<open>f\<close>.
\<close>

function attemptFrom :: "retry_options \<Rightarrow> (nat \<Rightarrow> rpc_error + string) \<Rightarrow> nat \<Rightarrow> item_state" where
  "attemptFrom opts f k =
     (case f k of
        Inr owner \<Rightarrow> Succeeded k owner
      | Inl e \<Rightarrow>
          if classify e = PermanentAbsence then Absent k
          else if \<not> isExhausted opts (Suc k) then attemptFrom opts f (Suc k)
          else Failed k (message e))"
  by pat_completeness auto
termination
  by (relation "measure (\<lambda>(opts, f, k). Suc (maxAttempts opts) - k)")
     (auto simp: isExhausted_def)

declare attemptFrom.simps [simp del]

definition fetchItem :: "retry_options \<Rightarrow> transport \<Rightarrow> int \<Rightarrow> item_state" where
  "fetchItem opts T j = attemptFrom opts (T j) 1"

section \<open>The run\<close>

text \<open>
  The two scripts differ in when rows reach the CSV file and in the pause between
  batches. \<open>WriteImmediately\<close> is \<^verbatim>\<open>get_nft_owners_by_id.mjs\<close>, which writes each row as
  its call returns; \<open>SortAtEnd\<close> is the other script, which pushes each row to
  \<^verbatim>\<open>results\<close>, sorts after the loop and writes once.
\<close>

datatype sink_mode = WriteImmediately | SortAtEnd

record config =
  startTokenId :: int
  endTokenId :: int
  batchSize :: int
  pacingDelay :: nat
  retryOpts :: retry_options
  sink :: sink_mode

text \<open>The constants of the two scripts.\<close>

definition by_id_config :: config where
  "by_id_config = \<lparr>startTokenId = 1001, endTokenId = 2000, batchSize = 5,
     pacingDelay = 1500, retryOpts = retryOptions, sink = WriteImmediately\<rparr>"

definition web3_config :: config where
  "web3_config = \<lparr>startTokenId = 1001, endTokenId = 2000, batchSize = 5,
     pacingDelay = 2000, retryOpts = retryOptions, sink = SortAtEnd\<rparr>"

datatype phase = Awaiting | Pacing | Finished

text \<open>
  The state of \<^verbatim>\<open>fetchOwnersInRange\<close> between two events of the event loop.
  \<^item> \<open>loop_i\<close>: the variable \<^verbatim>\<open>i\<close> of the outer loop;
  \<^item> \<open>phase\<close>: awaiting \<^verbatim>\<open>Promise.all(batchPromises)\<close>, awaiting the timer between
    batches, or returned;
  \<^item> \<open>batchPromises\<close>: the tokens whose promises the current batch holds;
  \<^item> \<open>fetchers\<close>: every fetch started so far with its state, in the order started;
  \<^item> \<open>results\<close>: the array of the same name (unused when rows are written at once);
  \<^item> \<open>csv\<close>: the rows this run has written through \<^verbatim>\<open>csvWriter.writeRecords\<close>;
  \<^item> \<open>console\<close>: the lines of \<^verbatim>\<open>console.warn\<close> and \<^verbatim>\<open>console.error\<close>;
  \<^item> \<open>errorLog\<close>: the lines written to \<^verbatim>\<open>errorLogStream\<close>;
  \<^item> \<open>progress\<close>: the calls of \<^verbatim>\<open>progressBar.increment()\<close>;
  \<^item> \<open>slept\<close>: the milliseconds spent in the pause between batches.
  Writing to the file, the console and the log is taken not to fail, and the write of a
  row that the first script awaits before it resolves the promise is taken to complete
  with the answer of the call. The rows the file held before the run are not part of
  \<open>csv\<close>.
\<close>

record state =
  loop_i :: int
  phase :: phase
  batchPromises :: "int list"
  fetchers :: "(int \<times> item_state) list"
  results :: "(string \<times> int) list"
  csv :: "(string \<times> int) list"
  console :: "string list"
  errorLog :: "string list"
  progress :: nat
  slept :: nat

text \<open>The fetch of token \<open>j\<close> moves to the state \<open>st\<close>.\<close>

definition set_item :: "int \<Rightarrow> item_state \<Rightarrow> (int \<times> item_state) list \<Rightarrow> (int \<times> item_state) list" where
  "set_item j st fs = map (\<lambda>(j', st'). if j' = j then (j', st) else (j', st')) fs"

text \<open>The promise of token \<open>j\<close> is resolved.\<close>

definition settled :: "(int \<times> item_state) list \<Rightarrow> int \<Rightarrow> bool" where
  "settled fs j = (case map_of fs j of None \<Rightarrow> False | Some st \<Rightarrow> terminal st)"

text \<open>The row \<^verbatim>\<open>[owner, j]\<close>: written to the file at once, or pushed to \<^verbatim>\<open>results\<close>.\<close>

definition record_owner :: "config \<Rightarrow> string \<Rightarrow> int \<Rightarrow> state \<Rightarrow> state" where
  "record_owner cfg owner j s =
     (case sink cfg of
        WriteImmediately \<Rightarrow> s\<lparr>csv := csv s @ [(owner, j)]\<rparr>
      | SortAtEnd \<Rightarrow> s\<lparr>results := results s @ [(owner, j)]\<rparr>)"

text \<open>The effects of the branch that \<open>settle\<close> chose, for token \<open>j\<close>.\<close>

fun effects :: "config \<Rightarrow> int \<Rightarrow> item_state \<Rightarrow> state \<Rightarrow> state" where
  "effects cfg j (Succeeded k owner) s =
     (record_owner cfg owner j s)\<lparr>progress := Suc (progress s)\<rparr>"
| "effects cfg j (Absent k) s =
     s\<lparr>console := console s @ [warn_line j], progress := Suc (progress s)\<rparr>"
| "effects cfg j (Failed k msg) s =
     s\<lparr>console := console s @ [failed_line j msg],
       errorLog := errorLog s @ [error_line j msg],
       progress := Suc (progress s)\<rparr>"
| "effects cfg j (RetryScheduled k d) s = s"
| "effects cfg j (InFlight k) s = s"

definition on_response :: "config \<Rightarrow> int \<Rightarrow> nat \<Rightarrow> rpc_error + string \<Rightarrow> state \<Rightarrow> state" where
  "on_response cfg j k r s =
     (let st = settle (retryOpts cfg) k r;
          s' = effects cfg j st s
      in s'\<lparr>fetchers := set_item j st (fetchers s')\<rparr>)"

text \<open>After the loop: \<^verbatim>\<open>progressBar.stop()\<close>, and in the second script the sort and the single write.\<close>

definition finish :: "config \<Rightarrow> state \<Rightarrow> state" where
  "finish cfg s =
     (case sink cfg of
        WriteImmediately \<Rightarrow> s\<lparr>phase := Finished, batchPromises := []\<rparr>
      | SortAtEnd \<Rightarrow>
          s\<lparr>phase := Finished, batchPromises := [], csv := csv s @ sort_key snd (results s)\<rparr>)"

text \<open>
  The head of the outer loop with \<^verbatim>\<open>i\<close> set to \<open>i\<close>: when \<^verbatim>\<open>i <= endTokenId\<close> the inner loop
  creates the promises of \<^verbatim>\<open>i .. batchEnd\<close>, each starting its first call before the next
  is created, and the function awaits them all; otherwise the loop is left.
\<close>

definition batchEnd :: "config \<Rightarrow> int \<Rightarrow> int" where
  "batchEnd cfg i = min (i + batchSize cfg - 1) (endTokenId cfg)"

definition for_loop :: "config \<Rightarrow> int \<Rightarrow> state \<Rightarrow> state" where
  "for_loop cfg i s =
     (if i \<le> endTokenId cfg then
        s\<lparr>loop_i := i, phase := Awaiting, batchPromises := [i..batchEnd cfg i],
          fetchers := fetchers s @ map (\<lambda>j. (j, InFlight 1)) [i..batchEnd cfg i]\<rparr>
      else finish cfg (s\<lparr>loop_i := i\<rparr>))"

definition init :: "config \<Rightarrow> state" where
  "init cfg = for_loop cfg (startTokenId cfg)
     \<lparr>loop_i = startTokenId cfg, phase = Awaiting, batchPromises = [], fetchers = [],
      results = [], csv = [], console = [], errorLog = [], progress = 0, slept = 0\<rparr>"

text \<open>
  The events the event loop can deliver while \<^verbatim>\<open>fetchOwnersInRange\<close> runs: the answer of
  the call in flight for a token, the timer of a scheduled retry, the settling of
  \<^verbatim>\<open>Promise.all\<close>, and the timer of the pause between batches.
\<close>

datatype event = Response int | RetryTimer int | BatchSettled | PacingTimer

text \<open>One event; \<open>None\<close> when the event cannot occur in the state.\<close>

fun step :: "config \<Rightarrow> transport \<Rightarrow> event \<Rightarrow> state \<Rightarrow> state option" where
  "step cfg T (Response j) s =
     (case map_of (fetchers s) j of
        Some (InFlight k) \<Rightarrow> Some (on_response cfg j k (T j k) s)
      | _ \<Rightarrow> None)"
| "step cfg T (RetryTimer j) s =
     (case map_of (fetchers s) j of
        Some (RetryScheduled k d) \<Rightarrow>
          Some (s\<lparr>fetchers := set_item j (InFlight (Suc k)) (fetchers s)\<rparr>)
      | _ \<Rightarrow> None)"
| "step cfg T BatchSettled s =
     (if phase s = Awaiting \<and> list_all (settled (fetchers s)) (batchPromises s)
      then Some (s\<lparr>phase := Pacing\<rparr>) else None)"
| "step cfg T PacingTimer s =
     (if phase s = Pacing
      then Some (for_loop cfg (loop_i s + batchSize cfg) (s\<lparr>slept := slept s + pacingDelay cfg\<rparr>))
      else None)"

text \<open>
  A schedule: the events in the order the event loop delivers them. The states of a run
  of \<^verbatim>\<open>fetchOwnersInRange\<close> are those that \<open>exec\<close> reaches from \<open>init\<close>; the run has returned
  in the states whose phase is \<open>Finished\<close>.
\<close>

fun exec :: "config \<Rightarrow> transport \<Rightarrow> event list \<Rightarrow> state \<Rightarrow> state option" where
  "exec cfg T [] s = Some s"
| "exec cfg T (ev # evs) s =
     (case step cfg T ev s of None \<Rightarrow> None | Some s' \<Rightarrow> exec cfg T evs s')"

section \<open>The script\<close>

text \<open>
  The top level of both scripts. Loading the ABI (\<^verbatim>\<open>readFileSync\<close>, \<^verbatim>\<open>JSON.parse\<close>) either
  succeeds or throws, with a message; the handler of the failure calls \<^verbatim>\<open>process.exit(1)\<close>.
\<close>

datatype abi_load = AbiLoaded | AbiLoadFailed string

text \<open>
  The exit code of the process and the state in which \<^verbatim>\<open>fetchOwnersInRange\<close> returned
  (\<open>None\<close> when it never ran). After a failed load of the ABI the process has exited
  before anything is fetched. Otherwise \<^verbatim>\<open>main\<close> awaits \<^verbatim>\<open>fetchOwnersInRange\<close>, and once
  that has returned the process ends with code 0; the result is \<open>None\<close> while the events
  given have not brought the run to its end.
\<close>

definition run_script :: "abi_load \<Rightarrow> config \<Rightarrow> transport \<Rightarrow> event list \<Rightarrow> (nat \<times> state option) option" where
  "run_script abi cfg T evs =
     (case abi of
        AbiLoadFailed msg \<Rightarrow> Some (1, None)
      | AbiLoaded \<Rightarrow>
          (case exec cfg T evs (init cfg) of
             None \<Rightarrow> None
           | Some s \<Rightarrow> if phase s = Finished then Some (0, Some s) else None))"

text \<open>The first script with another batch size.\<close>

definition by_id_batch :: "int \<Rightarrow> config" where
  "by_id_batch n = by_id_config\<lparr>batchSize := n\<rparr>"

section \<open>Invariants of the run\<close>

text \<open>
  The definitions of this section and of the next two are not code of the scripts: they
  state what holds in every state of a run, and are used in the proofs.

  The shape of a state of the run: the loop variable is the start plus a multiple of the
  batch size; the run has returned exactly when the loop variable has passed the end; the
  fetches started are those of the tokens from the start to the end of the current batch,
  in this order; the current batch is the window at the loop variable; every fetch of an
  earlier batch is terminal; and outside of the wait for the batch every fetch is.
\<close>

definition wf_state :: "config \<Rightarrow> state \<Rightarrow> bool" where
  "wf_state cfg s \<longleftrightarrow>
     startTokenId cfg \<le> loop_i s \<and>
     (phase s = Finished \<longleftrightarrow> endTokenId cfg < loop_i s) \<and>
     map fst (fetchers s) = [startTokenId cfg .. batchEnd cfg (loop_i s)] \<and>
     batchPromises s = [loop_i s .. batchEnd cfg (loop_i s)] \<and>
     list_all (\<lambda>(j, st). j < loop_i s \<longrightarrow> terminal st) (fetchers s) \<and>
     (phase s \<noteq> Awaiting \<longrightarrow> list_all (\<lambda>(j, st). terminal st) (fetchers s)) \<and>
     (\<exists>m. loop_i s = startTokenId cfg + int m * batchSize cfg)"

text \<open>
  One fetch: at least one attempt started and at most \<open>maxAttempts\<close>; a retry is scheduled
  only within the budget, with the delay of the policy.
\<close>

fun item_ok :: "retry_options \<Rightarrow> item_state \<Rightarrow> bool" where
  "item_ok opts (RetryScheduled k d) = (1 \<le> k \<and> k < maxAttempts opts \<and> d = nextDelay opts k)"
| "item_ok opts st = (1 \<le> attemptsMade st \<and> attemptsMade st \<le> maxAttempts opts)"

text \<open>The terminal state a fetch will reach from its present state.\<close>

fun outcome_of :: "retry_options \<Rightarrow> (nat \<Rightarrow> rpc_error + string) \<Rightarrow> item_state \<Rightarrow> item_state" where
  "outcome_of opts f (InFlight k) = attemptFrom opts f k"
| "outcome_of opts f (RetryScheduled k d) = attemptFrom opts f (Suc k)"
| "outcome_of opts f st = st"

text \<open>Every fetch of the state is within its budget and on its way to the outcome of \<open>fetchItem\<close>.\<close>

definition items_ok :: "config \<Rightarrow> transport \<Rightarrow> state \<Rightarrow> bool" where
  "items_ok cfg T s \<longleftrightarrow>
     list_all (\<lambda>(j, st). item_ok (retryOpts cfg) st \<and>
        outcome_of (retryOpts cfg) (T j) st = fetchItem (retryOpts cfg) T j) (fetchers s)"

text \<open>
  What a fetch in a given state has written: its row, its line of the error log, its line
  of the console.
\<close>

fun row_of :: "int \<times> item_state \<Rightarrow> (string \<times> int) list" where
  "row_of (j, Succeeded k owner) = [(owner, j)]"
| "row_of (j, st) = []"

fun log_of :: "int \<times> item_state \<Rightarrow> string list" where
  "log_of (j, Failed k msg) = [error_line j msg]"
| "log_of (j, st) = []"

fun console_of :: "int \<times> item_state \<Rightarrow> string list" where
  "console_of (j, Absent k) = [warn_line j]"
| "console_of (j, Failed k msg) = [failed_line j msg]"
| "console_of (j, st) = []"

definition owned_rows :: "(int \<times> item_state) list \<Rightarrow> (string \<times> int) list" where
  "owned_rows fs = concat (map row_of fs)"

text \<open>
  The rows, the error log, the console and the progress bar hold, up to order, what the
  fetches have written. When rows are sorted at the end the file is empty until the run
  returns and then holds the sorted \<^verbatim>\<open>results\<close>.
\<close>

definition sinks_ok :: "config \<Rightarrow> state \<Rightarrow> bool" where
  "sinks_ok cfg s \<longleftrightarrow>
     (case sink cfg of
        WriteImmediately \<Rightarrow> mset (csv s) = mset (owned_rows (fetchers s)) \<and> results s = []
      | SortAtEnd \<Rightarrow>
          mset (results s) = mset (owned_rows (fetchers s)) \<and>
          csv s = (if phase s = Finished then sort_key snd (results s) else [])) \<and>
     mset (errorLog s) = mset (concat (map log_of (fetchers s))) \<and>
     mset (console s) = mset (concat (map console_of (fetchers s))) \<and>
     progress s = length (filter (\<lambda>(j, st). terminal st) (fetchers s))"

text \<open>A call of \<^verbatim>\<open>ownerOf\<close> is awaited.\<close>

fun in_flight :: "item_state \<Rightarrow> bool" where
  "in_flight (InFlight k) = True"
| "in_flight st = False"

text \<open>The start of a line of the error log, up to the message.\<close>

definition log_prefix :: "int \<Rightarrow> string" where
  "log_prefix j = ''Error fetching owner for token ID '' @ toString j @ '': ''"

text \<open>
  What the run has recorded for token \<open>j\<close>: its rows in the file, its warnings on the
  console and its lines in the error log, counted together.
\<close>

definition outcome_count :: "state \<Rightarrow> int \<Rightarrow> nat" where
  "outcome_count s j =
     length (filter (\<lambda>(owner, i). i = j) (csv s)) +
     length (filter (\<lambda>l. l = warn_line j) (console s)) +
     length (filter (prefix (log_prefix j)) (errorLog s))"

section \<open>A bound on the events still to come\<close>

text \<open>
  A fetch at its \<open>k\<close>-th attempt can still take two events for each attempt left and one
  for the answer awaited; a token not yet started, these and the two events that close
  its batch; the barrier and the pause of the current batch, two.
\<close>

fun item_measure :: "retry_options \<Rightarrow> item_state \<Rightarrow> nat" where
  "item_measure opts (InFlight k) = 2 * (maxAttempts opts - k) + 1"
| "item_measure opts (RetryScheduled k d) = 2 * (maxAttempts opts - k)"
| "item_measure opts st = 0"

fun phase_measure :: "phase \<Rightarrow> nat" where
  "phase_measure Awaiting = 2"
| "phase_measure Pacing = 1"
| "phase_measure Finished = 0"

definition remaining :: "config \<Rightarrow> state \<Rightarrow> nat" where
  "remaining cfg s =
     sum_list (map (\<lambda>(j, st). item_measure (retryOpts cfg) st) (fetchers s)) +
     nat (endTokenId cfg - batchEnd cfg (loop_i s)) * (2 * maxAttempts (retryOpts cfg) + 1) +
     phase_measure (phase s)"

section \<open>Inputs of the examples\<close>

text \<open>Errors and transports: the invalid-id revert, a network error, and calls that succeed.\<close>

definition invalid_id_error :: rpc_error where
  "invalid_id_error = \<lparr>code = Some ''CALL_EXCEPTION'',
     reason = Some ''ERC721: invalid token ID'', message = ''execution reverted''\<rparr>"

definition transient_error :: rpc_error where
  "transient_error = \<lparr>code = Some ''NETWORK_ERROR'', reason = None,
     message = ''request timeout''\<rparr>"


definition T_ok :: transport where
  "T_ok j k = Inr ''0xA''"

text \<open>
  A run of the second script over three tokens in batches of two: token 1002 does not
  exist, and its answer arrives before that of token 1001.
\<close>

definition demo_config :: config where
  "demo_config = \<lparr>startTokenId = 1001, endTokenId = 1003, batchSize = 2,
     pacingDelay = 2000, retryOpts = retryOptions, sink = SortAtEnd\<rparr>"

definition T_demo :: transport where
  "T_demo j k = (if j = 1002 then Inl invalid_id_error
                 else if j = 1001 then Inr ''0xA'' else Inr ''0xB'')"

definition demo_schedule :: "event list" where
  "demo_schedule = [Response 1002, Response 1001, BatchSettled, PacingTimer,
     Response 1003, BatchSettled, PacingTimer]"

definition demo_final :: state where
  "demo_final = \<lparr>loop_i = 1005, phase = Finished, batchPromises = [],
     fetchers = [(1001, Succeeded 1 ''0xA''), (1002, Absent 1), (1003, Succeeded 1 ''0xB'')],
     results = [(''0xA'', 1001), (''0xB'', 1003)],
     csv = [(''0xA'', 1001), (''0xB'', 1003)],
     console = [''Token ID 1002 is invalid.''], errorLog = [], progress = 3, slept = 4000\<rparr>"

text \<open>The same run after the barrier of its first batch, and after the pause.\<close>

definition demo_paced :: state where
  "demo_paced = \<lparr>loop_i = 1001, phase = Pacing, batchPromises = [1001, 1002],
     fetchers = [(1001, Succeeded 1 ''0xA''), (1002, Absent 1)],
     results = [(''0xA'', 1001)], csv = [],
     console = [''Token ID 1002 is invalid.''], errorLog = [], progress = 2, slept = 0\<rparr>"

definition demo_second :: state where
  "demo_second = \<lparr>loop_i = 1003, phase = Awaiting, batchPromises = [1003],
     fetchers = [(1001, Succeeded 1 ''0xA''), (1002, Absent 1), (1003, InFlight 1)],
     results = [(''0xA'', 1001)], csv = [],
     console = [''Token ID 1002 is invalid.''], errorLog = [], progress = 2, slept = 2000\<rparr>"

text \<open>
  A run over the same tokens in which every call for token 1002 times out: eleven
  attempts, ten retries between them.
\<close>

definition T_flaky :: transport where
  "T_flaky j k = (if j = 1002 then Inl transient_error else Inr ''0xA'')"

definition flaky_schedule :: "event list" where
  "flaky_schedule =
     [Response 1001, Response 1002,
      RetryTimer 1002, Response 1002, RetryTimer 1002, Response 1002,
      RetryTimer 1002, Response 1002, RetryTimer 1002, Response 1002,
      RetryTimer 1002, Response 1002, RetryTimer 1002, Response 1002,
      RetryTimer 1002, Response 1002, RetryTimer 1002, Response 1002,
      RetryTimer 1002, Response 1002, RetryTimer 1002, Response 1002,
      BatchSettled, PacingTimer, Response 1003, BatchSettled, PacingTimer]"

definition flaky_final :: state where
  "flaky_final = \<lparr>loop_i = 1005, phase = Finished, batchPromises = [],
     fetchers = [(1001, Succeeded 1 ''0xA''), (1002, Failed 11 ''request timeout''),
       (1003, Succeeded 1 ''0xA'')],
     results = [(''0xA'', 1001), (''0xA'', 1003)],
     csv = [(''0xA'', 1001), (''0xA'', 1003)],
     console = [''Failed to fetch owner for token ID 1002: request timeout''],
     errorLog = [''Error fetching owner for token ID 1002: request timeout'' @ [CHR 0x0A]],
     progress = 3, slept = 4000\<rparr>"

section \<open>Basic facts\<close>
lemma map_fst_set_item [simp]: "map fst (set_item j st fs) = map fst fs"
  by (induction fs) (auto simp: set_item_def)

lemma map_of_set_item:
  "map_of (set_item j st fs) j' =
     (if j' = j then map_option (\<lambda>_. st) (map_of fs j) else map_of fs j')"
  by (induction fs) (auto simp: set_item_def)

lemma effects_frame [simp]:
  "fetchers (effects cfg j st s) = fetchers s"
  "phase (effects cfg j st s) = phase s"
  "loop_i (effects cfg j st s) = loop_i s"
  "batchPromises (effects cfg j st s) = batchPromises s"
  "slept (effects cfg j st s) = slept s"
  by (cases st; simp add: record_owner_def split: sink_mode.splits)+

lemma on_response_frame [simp]:
  "fetchers (on_response cfg j k r s) = set_item j (settle (retryOpts cfg) k r) (fetchers s)"
  "phase (on_response cfg j k r s) = phase s"
  "loop_i (on_response cfg j k r s) = loop_i s"
  "batchPromises (on_response cfg j k r s) = batchPromises s"
  "slept (on_response cfg j k r s) = slept s"
  by (simp_all add: on_response_def Let_def)

lemma classify_cases: "classify e = PermanentAbsence \<or> classify e = Transient"
  by (cases "classify e") simp_all


lemma init_by_id:
  "init by_id_config = \<lparr>loop_i = 1001, phase = Awaiting, batchPromises = [1001, 1002, 1003, 1004, 1005],
     fetchers = [(1001, InFlight 1), (1002, InFlight 1), (1003, InFlight 1), (1004, InFlight 1), (1005, InFlight 1)],
     results = [], csv = [], console = [], errorLog = [], progress = 0, slept = 0\<rparr>"
  by (simp add: init_def for_loop_def by_id_config_def batchEnd_def upto_rec_numeral)

section \<open>The shape of the reachable states\<close>

lemma exec_invariant:
  assumes "\<And>ev s s'. P s \<Longrightarrow> step cfg T ev s = Some s' \<Longrightarrow> P s'"
    and "P s" and "exec cfg T evs s = Some s'"
  shows "P s'"
  using assms(2,3)
proof (induction evs arbitrary: s)
  case Nil
  then show ?case by simp
next
  case (Cons ev evs)
  then show ?case
    by (auto split: option.splits intro: assms(1))
qed

lemma finish_frame [simp]:
  "fetchers (finish cfg s) = fetchers s"
  "phase (finish cfg s) = Finished"
  "loop_i (finish cfg s) = loop_i s"
  "batchPromises (finish cfg s) = []"
  "slept (finish cfg s) = slept s"
  by (simp_all add: finish_def split: sink_mode.splits)

lemma batchEnd_le: "batchEnd cfg i \<le> endTokenId cfg"
  by (simp add: batchEnd_def)

lemma wf_init:
  assumes "0 < batchSize cfg"
  shows "wf_state cfg (init cfg)"
proof (cases "startTokenId cfg \<le> endTokenId cfg")
  case True
  then show ?thesis
    using assms
    by (auto simp: wf_state_def init_def for_loop_def list_all_iff comp_def batchEnd_def
        intro: exI [of _ 0])
next
  case False
  then show ?thesis
    using assms
    by (auto simp: wf_state_def init_def for_loop_def list_all_iff batchEnd_def
        intro: exI [of _ 0])
qed

lemma set_item_terminal_others:
  "list_all (\<lambda>(j, st). P j \<longrightarrow> terminal st) fs \<Longrightarrow> \<not> P j' \<or> terminal st' \<Longrightarrow>
   list_all (\<lambda>(j, st). P j \<longrightarrow> terminal st) (set_item j' st' fs)"
  by (auto simp: set_item_def list_all_iff split: if_splits)

lemma wf_item_step:
  assumes w: "wf_state cfg s" and m: "map_of (fetchers s) j = Some st" and nt: "\<not> terminal st"
    and that: "loop_i s' = loop_i s" "phase s' = phase s" "batchPromises s' = batchPromises s"
  shows "wf_state cfg (s'\<lparr>fetchers := set_item j st' (fetchers s)\<rparr>)"
proof -
  have in_set: "(j, st) \<in> set (fetchers s)"
    using m by (rule map_of_SomeD)
  have aw: "phase s = Awaiting"
    using w in_set nt by (auto simp: wf_state_def list_all_iff)
  have ge: "\<not> j < loop_i s"
    using w in_set nt by (auto simp: wf_state_def list_all_iff)
  show ?thesis
    using w aw ge that
    by (auto simp: wf_state_def intro: set_item_terminal_others)
qed

lemma wf_step:
  assumes bs: "0 < batchSize cfg" and w: "wf_state cfg s" and st: "step cfg T ev s = Some s'"
  shows "wf_state cfg s'"
proof (cases ev)
  case (Response j)
  then obtain k where m: "map_of (fetchers s) j = Some (InFlight k)"
    and s': "s' = on_response cfg j k (T j k) s"
    using st by (auto split: option.splits item_state.splits)
  have "s' = (effects cfg j (settle (retryOpts cfg) k (T j k)) s)
      \<lparr>fetchers := set_item j (settle (retryOpts cfg) k (T j k)) (fetchers s)\<rparr>"
    by (simp add: s' on_response_def Let_def)
  then show ?thesis
    using wf_item_step [OF w m, of "effects cfg j (settle (retryOpts cfg) k (T j k)) s"]
    by simp
next
  case (RetryTimer j)
  then obtain k d where m: "map_of (fetchers s) j = Some (RetryScheduled k d)"
    and s': "s' = s\<lparr>fetchers := set_item j (InFlight (Suc k)) (fetchers s)\<rparr>"
    using st by (auto split: option.splits item_state.splits)
  show ?thesis
    using wf_item_step [OF w m, of s] s' by simp
next
  case BatchSettled
  then have aw: "phase s = Awaiting" and all: "list_all (settled (fetchers s)) (batchPromises s)"
    and s': "s' = s\<lparr>phase := Pacing\<rparr>"
    using st by (auto split: if_splits)
  have d: "distinct (map fst (fetchers s))"
    using w by (simp add: wf_state_def)
  have "terminal st'" if "(j, st') \<in> set (fetchers s)" for j st'
  proof (cases "j < loop_i s")
    case True
    then show ?thesis using w that by (auto simp: wf_state_def list_all_iff)
  next
    case False
    have "j \<in> set (map fst (fetchers s))"
      using that by force
    moreover have "map fst (fetchers s) = [startTokenId cfg .. batchEnd cfg (loop_i s)]"
      using w by (simp add: wf_state_def)
    ultimately have "j \<in> set [startTokenId cfg .. batchEnd cfg (loop_i s)]"
      by metis
    then have "j \<le> batchEnd cfg (loop_i s)"
      by simp
    then have "j \<in> set (batchPromises s)"
      using w False by (simp add: wf_state_def)
    then have "settled (fetchers s) j"
      using all by (simp add: list_all_iff)
    moreover have "map_of (fetchers s) j = Some st'"
      using d that by simp
    ultimately show ?thesis by (simp add: settled_def)
  qed
  then show ?thesis
    using w aw s' by (auto simp: wf_state_def list_all_iff)
next
  case PacingTimer
  then have pc: "phase s = Pacing"
    and s': "s' = for_loop cfg (loop_i s + batchSize cfg) (s\<lparr>slept := slept s + pacingDelay cfg\<rparr>)"
    using st by (auto split: if_splits)
  let ?i = "loop_i s" and ?i' = "loop_i s + batchSize cfg"
  have le: "?i \<le> endTokenId cfg" and lo: "startTokenId cfg \<le> ?i"
    using w pc by (auto simp: wf_state_def)
  have allt: "list_all (\<lambda>(j, st). terminal st) (fetchers s)"
    using w pc by (simp add: wf_state_def)
  obtain m where m: "?i = startTokenId cfg + int m * batchSize cfg"
    using w by (auto simp: wf_state_def)
  have m': "?i' = startTokenId cfg + int (Suc m) * batchSize cfg"
    using m by (simp add: algebra_simps)
  have ids: "map fst (fetchers s) = [startTokenId cfg .. batchEnd cfg ?i]"
    using w by (simp add: wf_state_def)
  show ?thesis
  proof (cases "?i' \<le> endTokenId cfg")
    case True
    have be: "batchEnd cfg ?i = ?i' - 1"
      using True by (simp add: batchEnd_def)
    have ge: "?i' \<le> batchEnd cfg ?i'"
      using True bs by (simp add: batchEnd_def)
    have "[startTokenId cfg .. batchEnd cfg ?i'] =
        [startTokenId cfg .. ?i' - 1] @ [?i' .. batchEnd cfg ?i']"
      using lo bs ge by (intro upto_split1) auto
    then show ?thesis
      using True s' allt ids be lo bs m'
      by (auto simp: wf_state_def for_loop_def list_all_iff comp_def simp del: of_nat_Suc)
  next
    case False
    have be: "batchEnd cfg ?i = endTokenId cfg" "batchEnd cfg ?i' = endTokenId cfg"
      using False bs by (auto simp: batchEnd_def)
    show ?thesis
      using False s' allt ids be lo bs m'
      by (auto simp: wf_state_def for_loop_def list_all_iff simp del: of_nat_Suc)
  qed
qed

lemma wf_reachable:
  assumes "0 < batchSize cfg" and "exec cfg T evs (init cfg) = Some s"
  shows "wf_state cfg s"
  using exec_invariant [where P = "wf_state cfg", OF wf_step [OF assms(1)] wf_init [OF assms(1)] assms(2)]
  by simp

section \<open>The fetches of the reachable states\<close>

lemma outcome_of_settle:
  "outcome_of opts f (settle opts k (f k)) = attemptFrom opts f k"
  by (subst attemptFrom.simps) (simp add: settle_def split: sum.splits)

lemma item_ok_settle:
  "1 \<le> k \<Longrightarrow> k \<le> maxAttempts opts \<Longrightarrow> item_ok opts (settle opts k r)"
  by (auto simp: settle_def isExhausted_def split: sum.splits)

lemma list_all_set_item:
  "list_all (\<lambda>(j, st). P j st) fs \<Longrightarrow> P j' st' \<Longrightarrow>
   list_all (\<lambda>(j, st). P j st) (set_item j' st' fs)"
  by (auto simp: set_item_def list_all_iff split: if_splits)

lemma items_ok_init: "items_ok cfg T (init cfg)"
  by (auto simp: items_ok_def init_def for_loop_def list_all_iff fetchItem_def maxAttempts_def)

lemma items_ok_step:
  assumes ok: "items_ok cfg T s" and st: "step cfg T ev s = Some s'"
  shows "items_ok cfg T s'"
proof (cases ev)
  case (Response j)
  then obtain k where m: "map_of (fetchers s) j = Some (InFlight k)"
    and s': "s' = on_response cfg j k (T j k) s"
    using st by (auto split: option.splits item_state.splits)
  have "(j, InFlight k) \<in> set (fetchers s)"
    using m by (rule map_of_SomeD)
  then have k: "1 \<le> k" "k \<le> maxAttempts (retryOpts cfg)"
    and o: "attemptFrom (retryOpts cfg) (T j) k = fetchItem (retryOpts cfg) T j"
    using ok by (auto simp: items_ok_def list_all_iff)
  show ?thesis
    unfolding items_ok_def s' on_response_frame
    using ok k o
    by (intro list_all_set_item) (simp_all add: items_ok_def item_ok_settle outcome_of_settle)
next
  case (RetryTimer j)
  then obtain k d where m: "map_of (fetchers s) j = Some (RetryScheduled k d)"
    and s': "s' = s\<lparr>fetchers := set_item j (InFlight (Suc k)) (fetchers s)\<rparr>"
    using st by (auto split: option.splits item_state.splits)
  have "(j, RetryScheduled k d) \<in> set (fetchers s)"
    using m by (rule map_of_SomeD)
  then have k: "k < maxAttempts (retryOpts cfg)"
    and o: "attemptFrom (retryOpts cfg) (T j) (Suc k) = fetchItem (retryOpts cfg) T j"
    using ok by (auto simp: items_ok_def list_all_iff)
  show ?thesis
    unfolding items_ok_def s'
    using ok k o by (simp add: items_ok_def list_all_set_item)
next
  case BatchSettled
  then show ?thesis
    using ok st by (auto simp: items_ok_def split: if_splits)
next
  case PacingTimer
  then show ?thesis
    using ok st
    by (auto simp: items_ok_def for_loop_def list_all_iff fetchItem_def maxAttempts_def
        split: if_splits)
qed

lemma items_ok_reachable:
  assumes "exec cfg T evs (init cfg) = Some s"
  shows "items_ok cfg T s"
  using exec_invariant [where P = "items_ok cfg T", OF items_ok_step items_ok_init assms]
  by simp

section \<open>What the reachable states have written\<close>

lemma set_item_absent: "j \<notin> fst ` set fs \<Longrightarrow> set_item j st fs = fs"
  by (induction fs) (auto simp: set_item_def)

lemma set_item_split:
  assumes "map_of fs j = Some old" and "distinct (map fst fs)"
  shows "\<exists>xs ys. fs = xs @ (j, old) # ys \<and> set_item j st fs = xs @ (j, st) # ys"
proof -
  have "(j, old) \<in> set fs"
    using assms(1) by (rule map_of_SomeD)
  then obtain xs ys where fs: "fs = xs @ (j, old) # ys"
    by (auto simp: in_set_conv_decomp)
  have "j \<notin> fst ` set xs" "j \<notin> fst ` set ys"
    using assms(2) unfolding fs by auto
  then have "set_item j st xs = xs" "set_item j st ys = ys"
    by (simp_all add: set_item_absent)
  then have "set_item j st fs = xs @ (j, st) # ys"
    unfolding fs by (simp add: set_item_def)
  then show ?thesis using fs by blast
qed

lemma effects_sinks:
  "csv (effects cfg j st s) = csv s @ (if sink cfg = WriteImmediately then row_of (j, st) else [])"
  "results (effects cfg j st s) = results s @ (if sink cfg = SortAtEnd then row_of (j, st) else [])"
  "errorLog (effects cfg j st s) = errorLog s @ log_of (j, st)"
  "console (effects cfg j st s) = console s @ console_of (j, st)"
  "progress (effects cfg j st s) = progress s + (if terminal st then 1 else 0)"
  by (cases st; simp add: record_owner_def split: sink_mode.splits)+

lemma on_response_sinks:
  "csv (on_response cfg j k r s) =
     csv s @ (if sink cfg = WriteImmediately then row_of (j, settle (retryOpts cfg) k r) else [])"
  "results (on_response cfg j k r s) =
     results s @ (if sink cfg = SortAtEnd then row_of (j, settle (retryOpts cfg) k r) else [])"
  "errorLog (on_response cfg j k r s) = errorLog s @ log_of (j, settle (retryOpts cfg) k r)"
  "console (on_response cfg j k r s) = console s @ console_of (j, settle (retryOpts cfg) k r)"
  "progress (on_response cfg j k r s) =
     progress s + (if terminal (settle (retryOpts cfg) k r) then 1 else 0)"
  by (simp_all add: on_response_def Let_def effects_sinks)

lemma wf_distinct: "wf_state cfg s \<Longrightarrow> distinct (map fst (fetchers s))"
  by (simp add: wf_state_def)

lemma wf_not_awaiting_no_item:
  assumes "wf_state cfg s" and "map_of (fetchers s) j = Some st" and "\<not> terminal st"
  shows "phase s = Awaiting"
proof -
  have "(j, st) \<in> set (fetchers s)"
    using assms(2) by (rule map_of_SomeD)
  then show ?thesis
    using assms(1,3) by (auto simp: wf_state_def list_all_iff)
qed

lemma sinks_ok_init: "sinks_ok cfg (init cfg)"
  by (auto simp: sinks_ok_def init_def for_loop_def finish_def owned_rows_def
      filter_empty_conv split: sink_mode.splits)

lemma sinks_ok_step:
  assumes w: "wf_state cfg s" and ok: "sinks_ok cfg s" and st: "step cfg T ev s = Some s'"
  shows "sinks_ok cfg s'"
proof (cases ev)
  case (Response j)
  then obtain k where m: "map_of (fetchers s) j = Some (InFlight k)"
    and s': "s' = on_response cfg j k (T j k) s"
    using st by (auto split: option.splits item_state.splits)
  let ?st = "settle (retryOpts cfg) k (T j k)"
  obtain xs ys where fs: "fetchers s = xs @ (j, InFlight k) # ys"
    and fs': "set_item j ?st (fetchers s) = xs @ (j, ?st) # ys"
    using set_item_split [OF m wf_distinct [OF w]] by blast
  have aw: "phase s = Awaiting"
    using wf_not_awaiting_no_item [OF w m] by simp
  show ?thesis
    using ok aw
    unfolding sinks_ok_def s' on_response_sinks on_response_frame fs' owned_rows_def
    unfolding fs
    by (cases "sink cfg") auto
next
  case (RetryTimer j)
  then obtain k d where m: "map_of (fetchers s) j = Some (RetryScheduled k d)"
    and s': "s' = s\<lparr>fetchers := set_item j (InFlight (Suc k)) (fetchers s)\<rparr>"
    using st by (auto split: option.splits item_state.splits)
  obtain xs ys where fs: "fetchers s = xs @ (j, RetryScheduled k d) # ys"
    and fs': "set_item j (InFlight (Suc k)) (fetchers s) = xs @ (j, InFlight (Suc k)) # ys"
    using set_item_split [OF m wf_distinct [OF w]] by blast
  show ?thesis
    using ok
    unfolding sinks_ok_def s' owned_rows_def state.simps fs'
    unfolding fs
    by (cases "sink cfg") auto
next
  case BatchSettled
  then show ?thesis
    using ok st by (auto simp: sinks_ok_def split: if_splits sink_mode.splits)
next
  case PacingTimer
  then have pc: "phase s = Pacing"
    and s': "s' = for_loop cfg (loop_i s + batchSize cfg) (s\<lparr>slept := slept s + pacingDelay cfg\<rparr>)"
    using st by (auto split: if_splits)
  have z: "concat (map row_of (map (\<lambda>j. (j, InFlight 1)) js)) = []"
    "concat (map log_of (map (\<lambda>j. (j, InFlight 1)) js)) = []"
    "concat (map console_of (map (\<lambda>j. (j, InFlight 1)) js)) = []"
    "filter (\<lambda>(j, st). terminal st) (map (\<lambda>j. (j, InFlight 1)) js) = []" for js :: "int list"
    by (induction js) auto
  show ?thesis
    using ok pc unfolding s' sinks_ok_def owned_rows_def for_loop_def finish_def
    by (cases "sink cfg") (auto simp: z)
qed

lemma sinks_ok_reachable:
  assumes bs: "0 < batchSize cfg" and ex: "exec cfg T evs (init cfg) = Some s"
  shows "sinks_ok cfg s"
proof -
  have "wf_state cfg s \<and> sinks_ok cfg s"
  proof (rule exec_invariant [where P = "\<lambda>s. wf_state cfg s \<and> sinks_ok cfg s", OF _ _ ex])
    show "wf_state cfg (init cfg) \<and> sinks_ok cfg (init cfg)"
      using wf_init [OF bs] sinks_ok_init by simp
  next
    fix ev s s'
    assume "wf_state cfg s \<and> sinks_ok cfg s" and "step cfg T ev s = Some s'"
    then show "wf_state cfg s' \<and> sinks_ok cfg s'"
      using wf_step [OF bs] sinks_ok_step by blast
  qed
  then show ?thesis by simp
qed

section \<open>Every run ends\<close>

lemma item_measure_settle:
  "item_measure opts (settle opts k r) < item_measure opts (InFlight k)"
  by (auto simp: settle_def split: sum.splits)

lemma sum_launch:
  "sum_list (map ((\<lambda>(j, st). item_measure opts st) \<circ> (\<lambda>j. (j, st0))) js) =
     length js * item_measure opts st0"
  by (induction js) auto

lemma remaining_step:
  assumes bs: "0 < batchSize cfg" and w: "wf_state cfg s" and ok: "items_ok cfg T s"
    and st: "step cfg T ev s = Some s'"
  shows "remaining cfg s' < remaining cfg s"
proof (cases ev)
  case (Response j)
  then obtain k where m: "map_of (fetchers s) j = Some (InFlight k)"
    and s': "s' = on_response cfg j k (T j k) s"
    using st by (auto split: option.splits item_state.splits)
  let ?st = "settle (retryOpts cfg) k (T j k)"
  obtain xs ys where fs: "fetchers s = xs @ (j, InFlight k) # ys"
    and fs': "set_item j ?st (fetchers s) = xs @ (j, ?st) # ys"
    using set_item_split [OF m wf_distinct [OF w]] by blast
  have "item_measure (retryOpts cfg) ?st < item_measure (retryOpts cfg) (InFlight k)"
    by (rule item_measure_settle)
  then show ?thesis
    unfolding remaining_def s' on_response_frame fs'
    unfolding fs by simp
next
  case (RetryTimer j)
  then obtain k d where m: "map_of (fetchers s) j = Some (RetryScheduled k d)"
    and s': "s' = s\<lparr>fetchers := set_item j (InFlight (Suc k)) (fetchers s)\<rparr>"
    using st by (auto split: option.splits item_state.splits)
  obtain xs ys where fs: "fetchers s = xs @ (j, RetryScheduled k d) # ys"
    and fs': "set_item j (InFlight (Suc k)) (fetchers s) = xs @ (j, InFlight (Suc k)) # ys"
    using set_item_split [OF m wf_distinct [OF w]] by blast
  have "(j, RetryScheduled k d) \<in> set (fetchers s)"
    using m by (rule map_of_SomeD)
  then have k: "k < maxAttempts (retryOpts cfg)"
    using ok by (auto simp: items_ok_def list_all_iff)
  then show ?thesis
    unfolding remaining_def s' state.simps fs'
    unfolding fs by simp
next
  case BatchSettled
  then show ?thesis
    using st by (auto simp: remaining_def split: if_splits)
next
  case PacingTimer
  then have pc: "phase s = Pacing"
    and s': "s' = for_loop cfg (loop_i s + batchSize cfg) (s\<lparr>slept := slept s + pacingDelay cfg\<rparr>)"
    using st by (auto split: if_splits)
  let ?i = "loop_i s" and ?i' = "loop_i s + batchSize cfg"
  let ?c = "2 * maxAttempts (retryOpts cfg) + 1"
  have le: "?i \<le> endTokenId cfg"
    using w pc by (auto simp: wf_state_def)
  show ?thesis
  proof (cases "?i' \<le> endTokenId cfg")
    case True
    have be: "batchEnd cfg ?i = ?i' - 1"
      using True by (simp add: batchEnd_def)
    have ge: "?i' \<le> batchEnd cfg ?i'" and le': "batchEnd cfg ?i' \<le> endTokenId cfg"
      using True bs by (simp_all add: batchEnd_def)
    define n where "n = nat (batchEnd cfg ?i' - ?i' + 1)"
    define r where "r = nat (endTokenId cfg - batchEnd cfg ?i')"
    have n: "0 < n" using ge by (simp add: n_def)
    have split: "nat (endTokenId cfg - batchEnd cfg ?i) = n + r"
      using ge le' unfolding be n_def r_def by linarith
    have len: "length [?i' .. batchEnd cfg ?i'] = n"
      by (simp add: n_def)
    define S where "S = sum_list (map (\<lambda>(j, st). item_measure (retryOpts cfg) st) (fetchers s))"
    define a where "a = item_measure (retryOpts cfg) (InFlight 1)"
    have ac: "?c = a + 2"
      by (simp add: a_def maxAttempts_def)
    have Rs: "remaining cfg s = S + (n + r) * ?c + 1"
      using pc unfolding remaining_def split S_def by simp
    have Rs': "remaining cfg s' = S + n * a + r * ?c + 2"
      using True unfolding remaining_def s' for_loop_def S_def a_def r_def
      by (simp add: sum_launch len del: length_upto item_measure.simps)
    show ?thesis
      using n unfolding Rs Rs' ac by (simp add: algebra_simps)
  next
    case False
    have be: "batchEnd cfg ?i = endTokenId cfg" "batchEnd cfg ?i' = endTokenId cfg"
      using False bs by (auto simp: batchEnd_def)
    show ?thesis
      using False pc unfolding remaining_def s' for_loop_def
      by (simp add: be)
  qed
qed

lemma remaining_exec:
  assumes bs: "0 < batchSize cfg"
    and inv: "wf_state cfg s" "items_ok cfg T s" and ex: "exec cfg T evs s = Some s'"
  shows "length evs + remaining cfg s' \<le> remaining cfg s"
  using inv ex
proof (induction evs arbitrary: s)
  case Nil
  then show ?case by simp
next
  case (Cons ev evs)
  from Cons.prems(3) obtain s1 where s1: "step cfg T ev s = Some s1"
    and rest: "exec cfg T evs s1 = Some s'"
    by (auto split: option.splits)
  have "length evs + remaining cfg s' \<le> remaining cfg s1"
    using Cons.IH [OF wf_step [OF bs Cons.prems(1) s1] items_ok_step [OF Cons.prems(2) s1] rest] .
  moreover have "remaining cfg s1 < remaining cfg s"
    using remaining_step [OF bs Cons.prems(1,2) s1] .
  ultimately show ?case by simp
qed

lemma remaining_init:
  assumes bs: "0 < batchSize cfg"
  shows "remaining cfg (init cfg) \<le>
    nat (endTokenId cfg - startTokenId cfg + 1) * (2 * maxAttempts (retryOpts cfg) + 1) + 2"
proof (cases "startTokenId cfg \<le> endTokenId cfg")
  case True
  let ?lo = "startTokenId cfg"
  let ?c = "2 * maxAttempts (retryOpts cfg) + 1"
  have ge: "?lo \<le> batchEnd cfg ?lo" and le': "batchEnd cfg ?lo \<le> endTokenId cfg"
    using True bs by (simp_all add: batchEnd_def)
  define n where "n = nat (batchEnd cfg ?lo - ?lo + 1)"
  define r where "r = nat (endTokenId cfg - batchEnd cfg ?lo)"
  have split: "nat (endTokenId cfg - ?lo + 1) = n + r"
    using ge le' unfolding n_def r_def by linarith
  have len: "length [?lo .. batchEnd cfg ?lo] = n"
    by (simp add: n_def)
  define a where "a = item_measure (retryOpts cfg) (InFlight 1)"
  have ac: "?c = a + 2"
    by (simp add: a_def maxAttempts_def)
  have "remaining cfg (init cfg) = n * a + r * ?c + 2"
    using True unfolding remaining_def init_def for_loop_def a_def r_def
    by (simp add: sum_launch len del: length_upto item_measure.simps)
  then show ?thesis
    unfolding split ac by (simp add: algebra_simps)
next
  case False
  then show ?thesis
    using bs by (simp add: remaining_def init_def for_loop_def batchEnd_def)
qed

lemma step_enabled:
  assumes w: "wf_state cfg s" and nf: "phase s \<noteq> Finished"
  shows "\<exists>ev s'. step cfg T ev s = Some s'"
proof (cases "phase s")
  case Awaiting
  show ?thesis
  proof (cases "list_all (settled (fetchers s)) (batchPromises s)")
    case True
    then have "step cfg T BatchSettled s = Some (s\<lparr>phase := Pacing\<rparr>)"
      using Awaiting by simp
    then show ?thesis by blast
  next
    case False
    then obtain j where j: "j \<in> set (batchPromises s)" and ns: "\<not> settled (fetchers s) j"
      by (auto simp: list_all_iff)
    have ids: "map fst (fetchers s) = [startTokenId cfg .. batchEnd cfg (loop_i s)]"
      and bp: "batchPromises s = [loop_i s .. batchEnd cfg (loop_i s)]"
      and lo: "startTokenId cfg \<le> loop_i s"
      using w by (simp_all add: wf_state_def)
    have "j \<in> set [startTokenId cfg .. batchEnd cfg (loop_i s)]"
      using j lo unfolding bp by simp
    then have "j \<in> set (map fst (fetchers s))"
      unfolding ids .
    then obtain st where m: "map_of (fetchers s) j = Some st"
      by (metis map_of_eq_None_iff not_Some_eq set_map)
    have nt: "\<not> terminal st"
      using ns m by (simp add: settled_def)
    show ?thesis
    proof (cases st)
      case (InFlight k)
      then have "step cfg T (Response j) s = Some (on_response cfg j k (T j k) s)"
        using m by simp
      then show ?thesis by blast
    next
      case (RetryScheduled k d)
      then have "step cfg T (RetryTimer j) s =
          Some (s\<lparr>fetchers := set_item j (InFlight (Suc k)) (fetchers s)\<rparr>)"
        using m by simp
      then show ?thesis by blast
    qed (use nt in simp_all)
  qed
next
  case Pacing
  then have "step cfg T PacingTimer s =
      Some (for_loop cfg (loop_i s + batchSize cfg) (s\<lparr>slept := slept s + pacingDelay cfg\<rparr>))"
    by simp
  then show ?thesis by blast
next
  case Finished
  then show ?thesis using nf by simp
qed

lemma run_completes:
  assumes bs: "0 < batchSize cfg"
  shows "wf_state cfg s \<Longrightarrow> items_ok cfg T s \<Longrightarrow>
    \<exists>evs s'. exec cfg T evs s = Some s' \<and> phase s' = Finished"
proof (induction "remaining cfg s" arbitrary: s rule: less_induct)
  case less
  show ?case
  proof (cases "phase s = Finished")
    case True
    then have "exec cfg T [] s = Some s \<and> phase s = Finished" by simp
    then show ?thesis by blast
  next
    case False
    then obtain ev s1 where s1: "step cfg T ev s = Some s1"
      using step_enabled [OF less.prems(1)] by blast
    have "remaining cfg s1 < remaining cfg s"
      using remaining_step [OF bs less.prems s1] .
    then obtain evs s' where "exec cfg T evs s1 = Some s'" "phase s' = Finished"
      using less.hyps [OF _ wf_step [OF bs less.prems(1) s1] items_ok_step [OF less.prems(2) s1]]
      by blast
    then have "exec cfg T (ev # evs) s = Some s' \<and> phase s' = Finished"
      using s1 by simp
    then show ?thesis by blast
  qed
qed

lemma finished_final:
  assumes w: "wf_state cfg s" and f: "phase s = Finished"
  shows "step cfg T ev s = None"
proof (cases ev)
  case (Response j)
  show ?thesis
  proof (rule ccontr)
    assume "step cfg T ev s \<noteq> None"
    then obtain k where m: "map_of (fetchers s) j = Some (InFlight k)"
      using Response by (auto split: option.splits item_state.splits)
    show False using wf_not_awaiting_no_item [OF w m] f by simp
  qed
next
  case (RetryTimer j)
  show ?thesis
  proof (rule ccontr)
    assume "step cfg T ev s \<noteq> None"
    then obtain k d where m: "map_of (fetchers s) j = Some (RetryScheduled k d)"
      using RetryTimer by (auto split: option.splits item_state.splits)
    show False using wf_not_awaiting_no_item [OF w m] f by simp
  qed
qed (use f in simp_all)

section \<open>The state in which the run returns\<close>

lemma outcome_of_terminal: "terminal st \<Longrightarrow> outcome_of opts f st = st"
  by (cases st) simp_all

lemma terminal_attemptFrom: "terminal (attemptFrom opts f k)"
proof (induction opts f k rule: attemptFrom.induct)
  case (1 opts f k)
  then show ?case
    by (subst attemptFrom.simps) (auto split: sum.splits)
qed

lemma in_flight_not_terminal: "in_flight st \<Longrightarrow> \<not> terminal st"
  by (cases st) simp_all

lemma pairs_determined:
  "(\<And>j st. (j, st) \<in> set fs \<Longrightarrow> st = f j) \<Longrightarrow> fs = map (\<lambda>j. (j, f j)) (map fst fs)"
  by (induction fs) auto

lemma batchEnd_past: "0 < batchSize cfg \<Longrightarrow> endTokenId cfg < i \<Longrightarrow> batchEnd cfg i = endTokenId cfg"
  by (simp add: batchEnd_def)

lemma finished_fetchers:
  assumes bs: "0 < batchSize cfg" and ex: "exec cfg T evs (init cfg) = Some s"
    and f: "phase s = Finished"
  shows "fetchers s =
    map (\<lambda>j. (j, fetchItem (retryOpts cfg) T j)) [startTokenId cfg .. endTokenId cfg]"
proof -
  have w: "wf_state cfg s" using wf_reachable [OF bs ex] .
  have ok: "items_ok cfg T s" using items_ok_reachable [OF ex] .
  have past: "endTokenId cfg < loop_i s"
    using w f by (simp add: wf_state_def)
  have ids: "map fst (fetchers s) = [startTokenId cfg .. endTokenId cfg]"
    using w batchEnd_past [OF bs past] by (simp add: wf_state_def)
  have "st = fetchItem (retryOpts cfg) T j" if "(j, st) \<in> set (fetchers s)" for j st
  proof -
    have "terminal st"
      using w f that by (auto simp: wf_state_def list_all_iff)
    moreover have "outcome_of (retryOpts cfg) (T j) st = fetchItem (retryOpts cfg) T j"
      using ok that by (auto simp: items_ok_def list_all_iff)
    ultimately show ?thesis
      by (simp add: outcome_of_terminal)
  qed
  then have "fetchers s = map (\<lambda>j. (j, fetchItem (retryOpts cfg) T j)) (map fst (fetchers s))"
    by (rule pairs_determined)
  then show ?thesis
    unfolding ids .
qed

section \<open>Fetches that are not terminal\<close>

lemma filter_length_mono:
  "(\<And>x. x \<in> set xs \<Longrightarrow> P x \<Longrightarrow> Q x) \<Longrightarrow> length (filter P xs) \<le> length (filter Q xs)"
  by (induction xs) auto

lemma filter_ge_upto: "filter (\<lambda>j. i \<le> j) [lo..hi] = [max lo i..hi]"
proof (induction lo hi rule: upto.induct)
  case (1 lo hi)
  show ?case
  proof (cases "lo \<le> hi")
    case True
    then have "filter (\<lambda>j. i \<le> j) [lo..hi] =
        (if i \<le> lo then [lo] else []) @ [max (lo + 1) i..hi]"
      using 1 by (simp add: upto_rec1 [of lo hi])
    also have "\<dots> = [max lo i..hi]"
      using True by (auto simp: max_def upto_rec1 [of lo hi])
    finally show ?thesis .
  next
    case False
    then show ?thesis by (simp add: max_def)
  qed
qed

lemma nonterminal_in_batch:
  assumes w: "wf_state cfg s" and m: "(j, st) \<in> set (fetchers s)" and nt: "\<not> terminal st"
  shows "j \<in> set (batchPromises s)"
proof -
  have ge: "loop_i s \<le> j"
    using w m nt by (force simp: wf_state_def list_all_iff)
  have "j \<in> set (map fst (fetchers s))"
    using m by force
  moreover have "map fst (fetchers s) = [startTokenId cfg .. batchEnd cfg (loop_i s)]"
    using w by (simp add: wf_state_def)
  ultimately have "j \<in> set [startTokenId cfg .. batchEnd cfg (loop_i s)]"
    by metis
  then show ?thesis
    using w ge by (simp add: wf_state_def)
qed

lemma batch_length:
  assumes bs: "0 < batchSize cfg" and w: "wf_state cfg s"
  shows "length (batchPromises s) \<le> nat (batchSize cfg)"
  using assms by (auto simp: wf_state_def batchEnd_def)

lemma nonterminal_count:
  assumes bs: "0 < batchSize cfg" and w: "wf_state cfg s"
  shows "length (filter (\<lambda>(j, st). \<not> terminal st) (fetchers s)) \<le> nat (batchSize cfg)"
proof -
  have "length (filter (\<lambda>(j, st). \<not> terminal st) (fetchers s))
      \<le> length (filter (\<lambda>(j, st). loop_i s \<le> j) (fetchers s))"
    using w by (intro filter_length_mono) (force simp: wf_state_def list_all_iff)
  also have "\<dots> = length (filter (\<lambda>j. loop_i s \<le> j) (map fst (fetchers s)))"
    by (simp add: filter_map comp_def case_prod_unfold)
  also have "\<dots> = length (batchPromises s)"
    using w by (simp add: wf_state_def filter_ge_upto max_def)
  finally show ?thesis
    using batch_length [OF bs w] by simp
qed

section \<open>The example runs\<close>

lemma classify_invalid_id_error: "classify invalid_id_error = PermanentAbsence"
  by (simp add: classify_def invalid_id_error_def js_includes_def sublist_Cons_right)

lemma demo_init:
  "init demo_config = \<lparr>loop_i = 1001, phase = Awaiting, batchPromises = [1001, 1002],
     fetchers = [(1001, InFlight 1), (1002, InFlight 1)],
     results = [], csv = [], console = [], errorLog = [], progress = 0, slept = 0\<rparr>"
  by (simp add: init_def for_loop_def demo_config_def batchEnd_def upto_rec_numeral)

lemma demo_fields [simp]:
  "startTokenId demo_config = 1001" "endTokenId demo_config = 1003" "batchSize demo_config = 2"
  "pacingDelay demo_config = 2000" "retryOpts demo_config = retryOptions"
  "sink demo_config = SortAtEnd"
  by (simp_all add: demo_config_def)

lemma demo_run: "exec demo_config T_demo demo_schedule (init demo_config) = Some demo_final"
  by (simp add: demo_init demo_schedule_def demo_final_def T_demo_def
      on_response_def settle_def classify_invalid_id_error set_item_def record_owner_def
      settled_def for_loop_def finish_def batchEnd_def warn_line_def toString_def decimal.simps
      upto_rec_numeral)

section \<open>The start of a batch\<close>

lemma map_of_const: "j \<in> set js \<Longrightarrow> map_of (map (\<lambda>j. (j, st)) js) j = Some st"
  by (induction js) auto

lemma map_of_launch:
  assumes "j \<in> set js" and "j \<notin> fst ` set fs"
  shows "map_of (fs @ map (\<lambda>j. (j, st)) js) j = Some st"
proof -
  have "map_of fs j = None"
    using assms(2) by (simp add: map_of_eq_None_iff)
  moreover have "map_of (map (\<lambda>j. (j, st)) js) j = Some st"
    using assms(1) by (induction js) auto
  ultimately show ?thesis
    by (simp add: map_add_def)
qed

lemma advance_only_by_pacing:
  assumes bs: "0 < batchSize cfg" and w: "wf_state cfg s"
    and st: "step cfg T ev s = Some s'" and ne: "loop_i s' \<noteq> loop_i s"
  shows "ev = PacingTimer \<and> phase s = Pacing \<and>
    list_all (\<lambda>(j, st). terminal st) (fetchers s) \<and>
    loop_i s' = loop_i s + batchSize cfg \<and> slept s' = slept s + pacingDelay cfg \<and>
    (phase s' = Awaiting \<longrightarrow>
       list_all (\<lambda>j. map_of (fetchers s') j = Some (InFlight 1)) (batchPromises s'))"
proof (cases ev)
  case (Response j)
  then show ?thesis using st ne by (auto split: option.splits item_state.splits)
next
  case (RetryTimer j)
  then show ?thesis using st ne by (auto split: option.splits item_state.splits)
next
  case BatchSettled
  then show ?thesis using st ne by (auto split: if_splits)
next
  case PacingTimer
  then have pc: "phase s = Pacing"
    and s': "s' = for_loop cfg (loop_i s + batchSize cfg) (s\<lparr>slept := slept s + pacingDelay cfg\<rparr>)"
    using st by (auto split: if_splits)
  let ?i' = "loop_i s + batchSize cfg"
  have allt: "list_all (\<lambda>(j, st). terminal st) (fetchers s)"
    using w pc by (simp add: wf_state_def)
  have ids: "map fst (fetchers s) = [startTokenId cfg .. batchEnd cfg (loop_i s)]"
    using w by (simp add: wf_state_def)
  have old: "j \<notin> fst ` set (fetchers s)" if "?i' \<le> j" for j
  proof -
    have "batchEnd cfg (loop_i s) < j"
      using that by (simp add: batchEnd_def)
    then have "j \<notin> set (map fst (fetchers s))"
      unfolding ids by simp
    then show ?thesis by simp
  qed
  have launched: "list_all (\<lambda>j. map_of (fetchers s') j = Some (InFlight 1)) (batchPromises s')"
    if le: "?i' \<le> endTokenId cfg"
  proof -
    have fs': "fetchers s' = fetchers s @ map (\<lambda>j. (j, InFlight 1)) [?i' .. batchEnd cfg ?i']"
      and bp': "batchPromises s' = [?i' .. batchEnd cfg ?i']"
      using le unfolding s' for_loop_def by simp_all
    show ?thesis
      unfolding list_all_iff fs' bp'
    proof (intro ballI map_of_launch)
      fix j assume "j \<in> set [?i' .. batchEnd cfg ?i']"
      then show "j \<notin> fst ` set (fetchers s)"
        using old by simp
    qed
  qed
  have "phase s' = Awaiting \<Longrightarrow> ?i' \<le> endTokenId cfg"
    unfolding s' for_loop_def by (auto split: if_splits)
  moreover have "loop_i s' = ?i'" "slept s' = slept s + pacingDelay cfg"
    unfolding s' for_loop_def by (auto simp: finish_def split: sink_mode.splits)
  ultimately show ?thesis
    using PacingTimer pc allt launched by simp
qed

lemma demo_fetch:
  "fetchItem retryOptions T_demo 1001 = Succeeded 1 ''0xA''"
  "fetchItem retryOptions T_demo 1002 = Absent 1"
  "fetchItem retryOptions T_demo 1003 = Succeeded 1 ''0xB''"
  by (simp_all add: fetchItem_def attemptFrom.simps T_demo_def classify_invalid_id_error)

lemma demo_paced_run:
  "exec demo_config T_demo [Response 1002, Response 1001, BatchSettled] (init demo_config) =
     Some demo_paced"
  by (simp add: demo_init demo_paced_def T_demo_def
      on_response_def settle_def classify_invalid_id_error set_item_def record_owner_def
      settled_def warn_line_def toString_def decimal.simps)

lemma demo_second_step: "step demo_config T_demo PacingTimer demo_paced = Some demo_second"
  by (simp add: demo_paced_def demo_second_def for_loop_def batchEnd_def upto_rec_numeral)

section \<open>The lines of the error log\<close>

text \<open>
  The decimal digits of a token id determine it, and hold no colon: a line of the error
  log starts with the text of one token only.
\<close>

lemma decimal_digits: "set (decimal n) \<subseteq> set ''0123456789''"
proof (induction n rule: decimal.induct)
  case (1 n)
  have d: "''0123456789'' ! k \<in> set ''0123456789''" if "k < 10" for k
    using that by (intro nth_mem) simp
  show ?case
  proof (cases "n < 10")
    case True
    then show ?thesis using d [of n] by (subst decimal.simps) simp
  next
    case False
    then show ?thesis
      using 1 d [of "n mod 10"] by (subst decimal.simps) simp
  qed
qed

lemma decimal_not_Nil: "decimal n \<noteq> []"
  by (subst decimal.simps) simp

lemma digit_inj:
  assumes "a < 10" and "b < 10" and "''0123456789'' ! a = ''0123456789'' ! b"
  shows "a = b"
proof -
  have "distinct ''0123456789''" by simp
  then show ?thesis
    using assms by (simp add: nth_eq_iff_index_eq)
qed

lemma decimal_inj: "decimal n = decimal m \<Longrightarrow> n = m"
proof (induction n arbitrary: m rule: decimal.induct)
  case (1 n)
  show ?case
  proof (cases "n < 10")
    case True
    then have n: "decimal n = [''0123456789'' ! n]"
      by (subst decimal.simps) simp
    show ?thesis
    proof (cases "m < 10")
      case True
      then have "decimal m = [''0123456789'' ! m]"
        by (subst decimal.simps) simp
      then show ?thesis
        using n "1.prems" \<open>n < 10\<close> True by (auto intro: digit_inj)
    next
      case False
      then have "decimal m = decimal (m div 10) @ [''0123456789'' ! (m mod 10)]"
        by (subst decimal.simps) simp
      then show ?thesis
        using n "1.prems" decimal_not_Nil [of "m div 10"] by simp
    qed
  next
    case False
    then have n: "decimal n = decimal (n div 10) @ [''0123456789'' ! (n mod 10)]"
      by (subst decimal.simps) simp
    show ?thesis
    proof (cases "m < 10")
      case True
      then have "decimal m = [''0123456789'' ! m]"
        by (subst decimal.simps) simp
      then show ?thesis
        using n "1.prems" decimal_not_Nil [of "n div 10"] by simp
    next
      case m: False
      then have "decimal m = decimal (m div 10) @ [''0123456789'' ! (m mod 10)]"
        by (subst decimal.simps) simp
      then have e: "decimal (n div 10) = decimal (m div 10)"
        and d: "''0123456789'' ! (n mod 10) = ''0123456789'' ! (m mod 10)"
        using n "1.prems" by simp_all
      have "n div 10 = m div 10"
        using "1.IH" [OF False e] .
      moreover have "n mod 10 = m mod 10"
        using d by (intro digit_inj) simp_all
      ultimately show ?thesis
        by (metis div_mult_mod_eq)
    qed
  qed
qed

lemma toString_inj: "toString j = toString j' \<Longrightarrow> j = j'"
proof -
  assume e: "toString j = toString j'"
  have minus: "CHR ''-'' \<notin> set (decimal n)" for n
    using decimal_digits [of n] by auto
  have neq: "CHR ''-'' # decimal a \<noteq> decimal b" for a b
    using minus [of b] by (metis list.set_intros(1))
  show ?thesis
  proof (cases "j < 0")
    case True
    show ?thesis
    proof (cases "j' < 0")
      case j': True
      then have "decimal (nat (- j)) = decimal (nat (- j'))"
        using e True by (simp add: toString_def)
      then have "nat (- j) = nat (- j')" by (rule decimal_inj)
      then show ?thesis using True j' by simp
    next
      case False
      then show ?thesis using e True neq by (simp add: toString_def)
    qed
  next
    case False
    show ?thesis
    proof (cases "j' < 0")
      case True
      then show ?thesis using e False neq [of "nat (- j')" "nat j"] by (simp add: toString_def)
    next
      case j': False
      then have "decimal (nat j) = decimal (nat j')"
        using e False by (simp add: toString_def)
      then have "nat j = nat j'" by (rule decimal_inj)
      then show ?thesis using False j' by simp
    qed
  qed
qed

lemma toString_no_colon: "CHR '':'' \<notin> set (toString j)"
  using decimal_digits [of "nat j"] decimal_digits [of "nat (- j)"]
  by (auto simp: toString_def)

lemma first_occurrence:
  "xs @ c # ys = xs' @ c # ys' \<Longrightarrow> c \<notin> set xs \<Longrightarrow> c \<notin> set xs' \<Longrightarrow> xs = xs'"
proof (induction xs arbitrary: xs')
  case Nil
  then show ?case by (cases xs') auto
next
  case (Cons x xs)
  then show ?case by (cases xs') auto
qed

lemma error_line_prefix: "error_line j msg = log_prefix j @ msg @ [CHR 0x0A]"
  by (simp add: error_line_def log_prefix_def)

lemma log_prefix_own: "prefix (log_prefix j) (error_line j msg)"
  by (simp add: error_line_prefix)

lemma log_prefix_other:
  assumes "prefix (log_prefix j) (error_line j' msg)"
  shows "j = j'"
proof -
  define H where "H = ''Error fetching owner for token ID ''"
  have 1: "log_prefix j = H @ (toString j @ '': '')"
    by (simp add: log_prefix_def H_def)
  have 2: "error_line j' msg = H @ (toString j' @ '': '' @ msg @ [CHR 0x0A])"
    by (simp add: error_line_def H_def)
  have "prefix (toString j @ '': '') (toString j' @ '': '' @ msg @ [CHR 0x0A])"
    using assms unfolding 1 2 by (simp only: same_prefix_prefix)
  then obtain zs where "toString j' @ '': '' @ msg @ [CHR 0x0A] = (toString j @ '': '') @ zs"
    unfolding prefix_def by blast
  then have "toString j' @ CHR '':'' # (CHR '' '' # msg @ [CHR 0x0A]) =
      toString j @ CHR '':'' # (CHR '' '' # zs)"
    by simp
  then have "toString j' = toString j"
    by (rule first_occurrence) (rule toString_no_colon)+
  then show ?thesis
    by (simp add: toString_inj)
qed

lemma classify_transient_error: "classify transient_error = Transient"
  by (simp add: classify_def transient_error_def)

lemma message_transient_error: "message transient_error = ''request timeout''"
  by (simp add: transient_error_def)

lemma flaky_run: "exec demo_config T_flaky flaky_schedule (init demo_config) = Some flaky_final"
  by (simp add: demo_init flaky_schedule_def flaky_final_def T_flaky_def
      on_response_def settle_def classify_transient_error set_item_def record_owner_def
      settled_def for_loop_def finish_def batchEnd_def failed_line_def error_line_def
      toString_def decimal.simps isExhausted_def maxAttempts_def retryOptions_def
      message_transient_error upto_rec_numeral Let_def)

section \<open>A token whose every attempt fails\<close>

lemma attemptFrom_all_transient:
  assumes tr: "\<forall>k. 1 \<le> k \<and> k \<le> maxAttempts opts \<longrightarrow> (\<exists>e. f k = Inl e \<and> classify e = Transient)"
  shows "1 \<le> k \<Longrightarrow> k \<le> maxAttempts opts \<Longrightarrow>
    \<exists>e. f (maxAttempts opts) = Inl e \<and> classify e = Transient \<and>
      attemptFrom opts f k = Failed (maxAttempts opts) (message e)"
proof (induction "maxAttempts opts - k" arbitrary: k)
  case 0
  then have k: "k = maxAttempts opts" by simp
  obtain e where e: "f k = Inl e" "classify e = Transient"
    using tr "0.prems" by blast
  have "attemptFrom opts f k = Failed k (message e)"
    using e k by (subst attemptFrom.simps) (simp add: isExhausted_def)
  then show ?case using e k by simp
next
  case (Suc d)
  then have lt: "k < maxAttempts opts" by simp
  obtain e where e: "f k = Inl e" "classify e = Transient"
    using tr Suc.prems by blast
  have "attemptFrom opts f k = attemptFrom opts f (Suc k)"
    using e lt by (subst attemptFrom.simps) (simp add: isExhausted_def)
  moreover have "\<exists>e. f (maxAttempts opts) = Inl e \<and> classify e = Transient \<and>
      attemptFrom opts f (Suc k) = Failed (maxAttempts opts) (message e)"
    using Suc.hyps(2) lt by (intro Suc.hyps(1)) simp_all
  ultimately show ?case by simp
qed

lemma other_items_log:
  "j \<notin> fst ` set fs \<Longrightarrow> filter (prefix (log_prefix j)) (concat (map log_of fs)) = []"
proof (induction fs)
  case Nil
  then show ?case by simp
next
  case (Cons p fs)
  obtain j' st where p: "p = (j', st)" by (cases p)
  have "j' \<noteq> j" using Cons.prems p by auto
  then have "filter (prefix (log_prefix j)) (log_of (j', st)) = []"
    by (cases st) (auto dest: log_prefix_other)
  then show ?case
    using Cons p by simp
qed

lemma item_log:
  assumes "map_of fs j = Some st" and "distinct (map fst fs)"
  shows "filter (prefix (log_prefix j)) (concat (map log_of fs)) = log_of (j, st)"
proof -
  have "(j, st) \<in> set fs"
    using assms(1) by (rule map_of_SomeD)
  then obtain xs ys where fs: "fs = xs @ (j, st) # ys"
    by (auto simp: in_set_conv_decomp)
  have "j \<notin> fst ` set xs" "j \<notin> fst ` set ys"
    using assms(2) unfolding fs by auto
  then have "filter (prefix (log_prefix j)) (concat (map log_of xs)) = []"
    "filter (prefix (log_prefix j)) (concat (map log_of ys)) = []"
    by (simp_all add: other_items_log)
  moreover have "filter (prefix (log_prefix j)) (log_of (j, st)) = log_of (j, st)"
    by (cases st) (simp_all add: log_prefix_own)
  ultimately show ?thesis
    unfolding fs by simp
qed

section \<open>Tokens do not disturb each other\<close>

lemma response_frame:
  assumes "step cfg T (Response j) s = Some s'" and "j' \<noteq> j"
  shows "map_of (fetchers s') j' = map_of (fetchers s) j' \<and> phase s' = phase s \<and>
    loop_i s' = loop_i s \<and> batchPromises s' = batchPromises s"
  using assms by (auto simp: map_of_set_item split: option.splits item_state.splits)

lemma fetchItem_own_calls:
  assumes "\<forall>k. T' j k = T j k"
  shows "fetchItem opts T' j = fetchItem opts T j"
proof -
  have "T' j = T j" using assms by (intro ext) simp
  then show ?thesis by (simp add: fetchItem_def)
qed

section \<open>Rows written at once\<close>

text \<open>
  In \<^verbatim>\<open>get_nft_owners_by_id.mjs\<close> a row, once written, stays where it is in the file.
\<close>

lemma csv_grows_step:
  assumes "sink cfg = WriteImmediately" and "step cfg T ev s = Some s'"
  shows "prefix (csv s) (csv s')"
proof (cases ev)
  case (Response j)
  then show ?thesis
    using assms by (auto simp: on_response_sinks split: option.splits item_state.splits)
next
  case (RetryTimer j)
  then show ?thesis
    using assms by (auto split: option.splits item_state.splits)
next
  case BatchSettled
  then show ?thesis using assms by (auto split: if_splits)
next
  case PacingTimer
  then show ?thesis
    using assms by (auto simp: for_loop_def finish_def split: if_splits)
qed

lemma csv_grows:
  assumes "sink cfg = WriteImmediately" and "exec cfg T evs s = Some s'"
  shows "prefix (csv s) (csv s')"
proof (rule exec_invariant [where P = "\<lambda>s'. prefix (csv s) (csv s')", OF _ _ assms(2)])
  show "prefix (csv s) (csv s)" by simp
next
  fix ev s1 s2
  assume "prefix (csv s) (csv s1)" and "step cfg T ev s1 = Some s2"
  then show "prefix (csv s) (csv s2)"
    using csv_grows_step [OF assms(1)] by (blast intro: prefix_order.trans)
qed

lemma exec_append:
  "exec cfg T (xs @ ys) s = (case exec cfg T xs s of None \<Rightarrow> None | Some s' \<Rightarrow> exec cfg T ys s')"
  by (induction xs arbitrary: s) (auto split: option.splits)

lemma completed_after:
  assumes bs: "0 < batchSize cfg" and ex: "exec cfg T evs (init cfg) = Some s"
  shows "\<exists>evs' s'. exec cfg T (evs @ evs') (init cfg) = Some s' \<and> phase s' = Finished \<and>
    exec cfg T evs' s = Some s'"
proof -
  obtain evs' s' where "exec cfg T evs' s = Some s'" "phase s' = Finished"
    using run_completes [OF bs wf_reachable [OF bs ex] items_ok_reachable [OF ex]] by blast
  then show ?thesis
    using ex by (auto simp: exec_append)
qed

lemma by_id_fields [simp]:
  "startTokenId by_id_config = 1001" "endTokenId by_id_config = 2000"
  "batchSize by_id_config = 5" "pacingDelay by_id_config = 1500"
  "retryOpts by_id_config = retryOptions" "sink by_id_config = WriteImmediately"
  by (simp_all add: by_id_config_def)

lemma by_id_two_answers:
  "exec by_id_config T_ok [Response 1002, Response 1001] (init by_id_config) =
     Some ((init by_id_config)\<lparr>
       fetchers := [(1001, Succeeded 1 ''0xA''), (1002, Succeeded 1 ''0xA''),
         (1003, InFlight 1), (1004, InFlight 1), (1005, InFlight 1)],
       csv := [(''0xA'', 1002), (''0xA'', 1001)], progress := 2\<rparr>)"
  by (simp add: init_by_id T_ok_def on_response_def settle_def set_item_def record_owner_def
      Let_def)

lemma by_id_every_completion:
  assumes "exec by_id_config T_ok ([Response 1002, Response 1001] @ evs) (init by_id_config) = Some s"
  shows "take 2 (map snd (csv s)) = [1002, 1001] \<and> \<not> sorted_wrt (<) (map snd (csv s))"
proof -
  let ?s2 = "(init by_id_config)\<lparr>
       fetchers := [(1001, Succeeded 1 ''0xA''), (1002, Succeeded 1 ''0xA''),
         (1003, InFlight 1), (1004, InFlight 1), (1005, InFlight 1)],
       csv := [(''0xA'', 1002), (''0xA'', 1001)], progress := 2\<rparr>"
  have "exec by_id_config T_ok evs ?s2 = Some s"
    using assms unfolding exec_append by_id_two_answers by simp
  then have "prefix (csv ?s2) (csv s)"
    by (intro csv_grows) simp_all
  then obtain zs where "csv s = [(''0xA'', 1002), (''0xA'', 1001)] @ zs"
    by (auto simp: prefix_def)
  then show ?thesis by simp
qed

lemma by_id_batch_fields [simp]:
  "startTokenId (by_id_batch n) = 1001" "endTokenId (by_id_batch n) = 2000"
  "batchSize (by_id_batch n) = n" "pacingDelay (by_id_batch n) = 1500"
  "retryOpts (by_id_batch n) = retryOptions" "sink (by_id_batch n) = WriteImmediately"
  by (simp_all add: by_id_batch_def by_id_config_def)

lemma first_row:
  assumes bs: "0 < n" and j: "1001 \<le> j" "j \<le> 1001 + n - 1" "j \<le> 2000"
  shows "\<exists>evs s. exec (by_id_batch n) T_ok (Response j # evs) (init (by_id_batch n)) = Some s \<and>
    phase s = Finished \<and> take 1 (csv s) = [(''0xA'', j)]"
proof -
  let ?cfg = "by_id_batch n"
  have b: "0 < batchSize ?cfg" using bs by simp
  have "j \<in> set [1001 .. batchEnd ?cfg 1001]"
    using j by (simp add: batchEnd_def)
  then have m: "map_of (fetchers (init ?cfg)) j = Some (InFlight 1)"
    by (simp add: init_def for_loop_def map_of_const)
  have c0: "csv (init ?cfg) = []"
    by (simp add: init_def for_loop_def finish_def)
  let ?s1 = "on_response ?cfg j 1 (T_ok j 1) (init ?cfg)"
  have e1: "exec ?cfg T_ok [Response j] (init ?cfg) = Some ?s1"
    using m by simp
  have c1: "csv ?s1 = [(''0xA'', j)]"
    by (simp add: on_response_sinks c0 settle_def T_ok_def)
  obtain evs s where e: "exec ?cfg T_ok ([Response j] @ evs) (init ?cfg) = Some s"
    and f: "phase s = Finished" and r: "exec ?cfg T_ok evs ?s1 = Some s"
    using completed_after [OF b e1] by blast
  have "prefix (csv ?s1) (csv s)"
    using r by (intro csv_grows) simp_all
  then obtain zs where "csv s = [(''0xA'', j)] @ zs"
    unfolding c1 by (auto simp: prefix_def)
  then have "take 1 (csv s) = [(''0xA'', j)]" by simp
  then show ?thesis using e f by auto
qed

section \<open>Rows sorted at the end\<close>

text \<open>
  In the second script the file is the list of the owned tokens in ascending order, for
  every order of events and every batch size.
\<close>

lemma owned_rows_keys:
  "sorted_wrt (<) (map fst fs) \<Longrightarrow>
   sorted_wrt (<) (map snd (owned_rows fs)) \<and> snd ` set (owned_rows fs) \<subseteq> fst ` set fs"
proof (induction fs)
  case Nil
  then show ?case by (simp add: owned_rows_def)
next
  case (Cons p fs)
  obtain j st where p: "p = (j, st)" by (cases p)
  have ih: "sorted_wrt (<) (map snd (owned_rows fs))" "snd ` set (owned_rows fs) \<subseteq> fst ` set fs"
    using Cons by simp_all
  have lt: "\<forall>k \<in> fst ` set fs. j < k"
    using Cons.prems p by auto
  show ?case
  proof (cases st)
    case (Succeeded k owner)
    then have "owned_rows (p # fs) = (owner, j) # owned_rows fs"
      by (simp add: owned_rows_def p)
    moreover have "j < b" if "(a, b) \<in> set (owned_rows fs)" for a b
    proof -
      have "b \<in> snd ` set (owned_rows fs)" using that by force
      then show ?thesis using ih(2) lt by blast
    qed
    ultimately show ?thesis using ih p by auto
  qed (use ih p in \<open>auto simp: owned_rows_def\<close>)
qed

lemma sort_at_end_rows:
  assumes bs: "0 < batchSize cfg" and mode: "sink cfg = SortAtEnd"
    and ex: "exec cfg T evs (init cfg) = Some s" and f: "phase s = Finished"
  shows "csv s = owned_rows (map (\<lambda>j. (j, fetchItem (retryOpts cfg) T j))
      [startTokenId cfg .. endTokenId cfg])"
    and "sorted_wrt (<) (map snd (csv s))"
proof -
  let ?fs = "map (\<lambda>j. (j, fetchItem (retryOpts cfg) T j)) [startTokenId cfg .. endTokenId cfg]"
  have fs: "fetchers s = ?fs"
    using finished_fetchers [OF bs ex f] .
  have sk: "sinks_ok cfg s"
    using sinks_ok_reachable [OF bs ex] .
  have c: "csv s = sort_key snd (results s)" and m: "mset (results s) = mset (owned_rows ?fs)"
    using sk mode f unfolding sinks_ok_def fs by simp_all
  have "sorted_wrt (<) (map fst ?fs)"
    by (simp add: comp_def)
  then have so: "sorted_wrt (<) (map snd (owned_rows ?fs))"
    using owned_rows_keys by blast
  then have "distinct (map snd (owned_rows ?fs))" and s: "sorted (map snd (owned_rows ?fs))"
    by (simp_all add: strict_sorted_iff)
  then have "inj_on snd (set (owned_rows ?fs))"
    by (simp add: distinct_map)
  moreover have "set (results s) = set (owned_rows ?fs)"
    using m by (rule mset_eq_setD)
  ultimately have "inj_on snd (set (results s))"
    by simp
  then have "sort_key snd (results s) = owned_rows ?fs"
    using m s by (intro sort_key_inj_key_eq)
  then show "csv s = owned_rows ?fs"
    using c by simp
  then show "sorted_wrt (<) (map snd (csv s))"
    using so by simp
qed

lemma sort_at_end_batch_size_invariant:
  assumes "0 < batchSize cfg" and "0 < batchSize cfg'"
    and "sink cfg = SortAtEnd" and "sink cfg' = SortAtEnd"
    and "startTokenId cfg' = startTokenId cfg" and "endTokenId cfg' = endTokenId cfg"
    and "retryOpts cfg' = retryOpts cfg"
    and "exec cfg T evs (init cfg) = Some s" and "phase s = Finished"
    and "exec cfg' T evs' (init cfg') = Some s'" and "phase s' = Finished"
  shows "csv s' = csv s"
  using sort_at_end_rows(1) [OF assms(1,3,8,9)] sort_at_end_rows(1) [OF assms(2,4,10,11)] assms(5-7)
  by simp

lemma web3_rows_ascending:
  assumes "exec web3_config T evs (init web3_config) = Some s" and "phase s = Finished"
  shows "sorted_wrt (<) (map snd (csv s))"
  using sort_at_end_rows(2) [OF _ _ assms] by (simp add: web3_config_def)

section \<open>What holds once the run has returned, and in every state\<close>

lemma returned_result_set:
  assumes "0 < batchSize cfg" and "exec cfg T evs (init cfg) = Some s" and "phase s = Finished"
  shows "map fst (fetchers s) = [startTokenId cfg .. endTokenId cfg] \<and>
    distinct (map fst (fetchers s)) \<and>
    set (map fst (fetchers s)) = {startTokenId cfg .. endTokenId cfg} \<and>
    list_all (\<lambda>(j, st). terminal st \<and> st = fetchItem (retryOpts cfg) T j) (fetchers s) \<and>
    progress s = length [startTokenId cfg .. endTokenId cfg] \<and>
    mset (csv s) = mset (owned_rows (fetchers s)) \<and>
    distinct (map snd (csv s)) \<and>
    set (map snd (csv s)) \<subseteq> {startTokenId cfg .. endTokenId cfg} \<and>
    mset (errorLog s) = mset (concat (map log_of (fetchers s))) \<and>
    mset (console s) = mset (concat (map console_of (fetchers s)))"
proof -
  have fs: "fetchers s =
      map (\<lambda>j. (j, fetchItem (retryOpts cfg) T j)) [startTokenId cfg .. endTokenId cfg]"
    using finished_fetchers [OF assms] .
  have ids: "map fst (fetchers s) = [startTokenId cfg .. endTokenId cfg]"
    unfolding fs by (simp add: comp_def)
  have allt: "list_all (\<lambda>(j, st). terminal st \<and> st = fetchItem (retryOpts cfg) T j) (fetchers s)"
    unfolding fs fetchItem_def by (simp add: list_all_iff terminal_attemptFrom)
  have sk: "sinks_ok cfg s"
    using sinks_ok_reachable [OF assms(1,2)] .
  have "filter (\<lambda>(j, st). terminal st) (fetchers s) = fetchers s"
    using allt by (auto simp: list_all_iff intro: filter_True)
  then have pr: "progress s = length [startTokenId cfg .. endTokenId cfg]"
    using sk ids unfolding sinks_ok_def by (metis length_map)
  have rows: "mset (csv s) = mset (owned_rows (fetchers s))"
    using sk assms(3) unfolding sinks_ok_def by (cases "sink cfg") simp_all
  have logs: "mset (errorLog s) = mset (concat (map log_of (fetchers s)))"
    "mset (console s) = mset (concat (map console_of (fetchers s)))"
    using sk unfolding sinks_ok_def by simp_all
  have "sorted_wrt (<) (map fst (fetchers s))"
    unfolding ids by simp
  then have "sorted_wrt (<) (map snd (owned_rows (fetchers s)))"
    and sub: "snd ` set (owned_rows (fetchers s)) \<subseteq> fst ` set (fetchers s)"
    using owned_rows_keys by blast+
  then have "distinct (map snd (owned_rows (fetchers s)))"
    by (simp add: strict_sorted_iff)
  moreover have "mset (map snd (csv s)) = mset (map snd (owned_rows (fetchers s)))"
    using rows by (metis mset_map)
  ultimately have dk: "distinct (map snd (csv s))"
    by (metis mset_eq_imp_distinct_iff)
  have "set (csv s) = set (owned_rows (fetchers s))"
    using rows by (rule mset_eq_setD)
  then have "set (map snd (csv s)) \<subseteq> set (map fst (fetchers s))"
    using sub by simp
  then have sk: "set (map snd (csv s)) \<subseteq> {startTokenId cfg .. endTokenId cfg}"
    unfolding ids by simp
  have "distinct (map fst (fetchers s))" "set (map fst (fetchers s)) = {startTokenId cfg .. endTokenId cfg}"
    unfolding ids by simp_all
  then show ?thesis
    using ids allt pr rows logs dk sk by blast
qed

lemma batch_safety:
  assumes "0 < batchSize cfg" and "exec cfg T evs (init cfg) = Some s"
  shows "(\<exists>m. loop_i s = startTokenId cfg + int m * batchSize cfg) \<and>
    (phase s \<noteq> Finished \<longrightarrow>
       loop_i s \<le> endTokenId cfg \<and>
       batchPromises s = [loop_i s .. min (loop_i s + batchSize cfg - 1) (endTokenId cfg)] \<and>
       0 < length (batchPromises s) \<and> length (batchPromises s) \<le> nat (batchSize cfg) \<and>
       (loop_i s + batchSize cfg - 1 \<le> endTokenId cfg \<longrightarrow>
          length (batchPromises s) = nat (batchSize cfg))) \<and>
    (phase s = Awaiting \<and> \<not> list_all (settled (fetchers s)) (batchPromises s) \<longrightarrow>
       step cfg T BatchSettled s = None \<and> step cfg T PacingTimer s = None) \<and>
    (phase s = Pacing \<longrightarrow> list_all (\<lambda>(j, st). terminal st) (fetchers s)) \<and>
    (\<forall>ev s'. step cfg T ev s = Some s' \<and> loop_i s' \<noteq> loop_i s \<longrightarrow>
       ev = PacingTimer \<and> phase s = Pacing \<and>
       list_all (\<lambda>(j, st). terminal st) (fetchers s) \<and>
       loop_i s' = loop_i s + batchSize cfg \<and> slept s' = slept s + pacingDelay cfg \<and>
       (phase s' = Awaiting \<longrightarrow>
          list_all (\<lambda>j. map_of (fetchers s') j = Some (InFlight 1)) (batchPromises s'))) \<and>
    (phase (init cfg) = Awaiting \<longrightarrow> loop_i (init cfg) = startTokenId cfg \<and>
       list_all (\<lambda>j. map_of (fetchers (init cfg)) j = Some (InFlight 1))
         (batchPromises (init cfg)))"
proof -
  have w: "wf_state cfg s" using wf_reachable [OF assms] .
  have a: "\<exists>m. loop_i s = startTokenId cfg + int m * batchSize cfg"
    using w by (simp add: wf_state_def)
  have b: "loop_i s \<le> endTokenId cfg \<and>
       batchPromises s = [loop_i s .. min (loop_i s + batchSize cfg - 1) (endTokenId cfg)] \<and>
       0 < length (batchPromises s) \<and> length (batchPromises s) \<le> nat (batchSize cfg) \<and>
       (loop_i s + batchSize cfg - 1 \<le> endTokenId cfg \<longrightarrow>
          length (batchPromises s) = nat (batchSize cfg))"
    if "phase s \<noteq> Finished"
    using w that assms(1) by (auto simp: wf_state_def batchEnd_def)
  have c: "step cfg T BatchSettled s = None \<and> step cfg T PacingTimer s = None"
    if "phase s = Awaiting \<and> \<not> list_all (settled (fetchers s)) (batchPromises s)"
    using that by simp
  have d: "phase s = Pacing \<Longrightarrow> list_all (\<lambda>(j, st). terminal st) (fetchers s)"
    using w by (simp add: wf_state_def)
  have i: "loop_i (init cfg) = startTokenId cfg \<and>
       list_all (\<lambda>j. map_of (fetchers (init cfg)) j = Some (InFlight 1))
         (batchPromises (init cfg))"
    if "phase (init cfg) = Awaiting"
  proof -
    have "startTokenId cfg \<le> endTokenId cfg"
      using that by (auto simp: init_def for_loop_def split: if_splits)
    then have fs: "fetchers (init cfg) =
        map (\<lambda>j. (j, InFlight 1)) [startTokenId cfg .. batchEnd cfg (startTokenId cfg)]"
      and bp: "batchPromises (init cfg) = [startTokenId cfg .. batchEnd cfg (startTokenId cfg)]"
      and l: "loop_i (init cfg) = startTokenId cfg"
      by (simp_all add: init_def for_loop_def)
    have "list_all (\<lambda>j. map_of (fetchers (init cfg)) j = Some (InFlight 1))
         (batchPromises (init cfg))"
      unfolding list_all_iff fs bp by (intro ballI map_of_const)
    then show ?thesis using l by simp
  qed
  show ?thesis
    using a b c d i advance_only_by_pacing [OF assms(1) w] by blast
qed

lemma exhaustion_states:
  assumes "0 < batchSize cfg" and "exec cfg T evs (init cfg) = Some s"
    and "map_of (fetchers s) j = Some st"
    and "\<forall>k. 1 \<le> k \<and> k \<le> maxAttempts (retryOpts cfg) \<longrightarrow>
           (\<exists>e. T j k = Inl e \<and> classify e = Transient)"
  shows "\<exists>e. T j (maxAttempts (retryOpts cfg)) = Inl e \<and> classify e = Transient \<and>
      1 \<le> attemptsMade st \<and> attemptsMade st \<le> maxAttempts (retryOpts cfg) \<and>
      (terminal st \<longrightarrow> st = Failed (maxAttempts (retryOpts cfg)) (message e)) \<and>
      (phase s = Finished \<longrightarrow> terminal st) \<and>
      (terminal st \<longrightarrow>
         step cfg T (Response j) s = None \<and> step cfg T (RetryTimer j) s = None) \<and>
      filter (prefix (log_prefix j)) (errorLog s) =
        (if terminal st then [error_line j (message e)] else [])"
proof -
  let ?M = "maxAttempts (retryOpts cfg)"
  have w: "wf_state cfg s" using wf_reachable [OF assms(1,2)] .
  have ok: "items_ok cfg T s" using items_ok_reachable [OF assms(2)] .
  have sk: "sinks_ok cfg s" using sinks_ok_reachable [OF assms(1,2)] .
  have mem: "(j, st) \<in> set (fetchers s)"
    using assms(3) by (rule map_of_SomeD)
  obtain e where e: "T j ?M = Inl e" "classify e = Transient"
    and f: "fetchItem (retryOpts cfg) T j = Failed ?M (message e)"
    using attemptFrom_all_transient [OF assms(4), of 1]
    by (auto simp: fetchItem_def maxAttempts_def)
  have iok: "item_ok (retryOpts cfg) st"
    and out: "outcome_of (retryOpts cfg) (T j) st = Failed ?M (message e)"
    using ok mem f by (auto simp: items_ok_def list_all_iff)
  have att: "1 \<le> attemptsMade st \<and> attemptsMade st \<le> ?M"
    using iok by (cases st) simp_all
  have t: "st = Failed ?M (message e)" if "terminal st"
    using out that by (simp add: outcome_of_terminal)
  have fin: "terminal st" if "phase s = Finished"
    using w mem that by (auto simp: wf_state_def list_all_iff)
  have noev: "step cfg T (Response j) s = None \<and> step cfg T (RetryTimer j) s = None"
    if "terminal st"
    using assms(3) t [OF that] by simp
  have "mset (filter (prefix (log_prefix j)) (errorLog s)) =
      mset (filter (prefix (log_prefix j)) (concat (map log_of (fetchers s))))"
    using sk unfolding sinks_ok_def mset_filter by simp
  also have "\<dots> = mset (log_of (j, st))"
    using item_log [OF assms(3) wf_distinct [OF w]] by simp
  finally have l: "mset (filter (prefix (log_prefix j)) (errorLog s)) = mset (log_of (j, st))" .
  have lg: "filter (prefix (log_prefix j)) (errorLog s) =
      (if terminal st then [error_line j (message e)] else [])"
  proof (cases "terminal st")
    case True
    then show ?thesis using l t [OF True] by (simp del: mset_filter)
  next
    case False
    then have "log_of (j, st) = []" by (cases st) simp_all
    then show ?thesis using l False by (simp del: mset_filter)
  qed
  show ?thesis
    using e att t fin noev lg by blast
qed

section \<open>Every token is recorded once\<close>

lemma warn_line_inj: "warn_line j = warn_line j' \<Longrightarrow> j = j'"
proof -
  assume "warn_line j = warn_line j'"
  then have "toString j = toString j'"
    by (simp add: warn_line_def)
  then show ?thesis by (rule toString_inj)
qed

lemma failed_not_warn: "failed_line j' msg \<noteq> warn_line j"
  by (simp add: failed_line_def warn_line_def)

lemma length_filter_mset:
  "mset xs = mset ys \<Longrightarrow> length (filter P xs) = length (filter P ys)"
  by (metis mset_filter size_mset)

lemma other_items_rows:
  "j \<notin> fst ` set fs \<Longrightarrow> filter (\<lambda>(owner, i). i = j) (owned_rows fs) = []"
proof (induction fs)
  case Nil
  then show ?case by (simp add: owned_rows_def)
next
  case (Cons p fs)
  obtain j' st where p: "p = (j', st)" by (cases p)
  have "j' \<noteq> j" using Cons.prems p by auto
  then have "filter (\<lambda>(owner, i). i = j) (row_of (j', st)) = []"
    by (cases st) auto
  then show ?case
    using Cons p by (simp add: owned_rows_def)
qed

lemma other_items_console:
  "j \<notin> fst ` set fs \<Longrightarrow> filter (\<lambda>l. l = warn_line j) (concat (map console_of fs)) = []"
proof (induction fs)
  case Nil
  then show ?case by simp
next
  case (Cons p fs)
  obtain j' st where p: "p = (j', st)" by (cases p)
  have "j' \<noteq> j" using Cons.prems p by auto
  then have "filter (\<lambda>l. l = warn_line j) (console_of (j', st)) = []"
    by (cases st) (auto dest: warn_line_inj simp: failed_not_warn)
  then show ?case
    using Cons p by simp
qed

lemma item_rows:
  assumes "map_of fs j = Some st" and "distinct (map fst fs)"
  shows "filter (\<lambda>(owner, i). i = j) (owned_rows fs) = row_of (j, st)"
proof -
  have "(j, st) \<in> set fs"
    using assms(1) by (rule map_of_SomeD)
  then obtain xs ys where fs: "fs = xs @ (j, st) # ys"
    by (auto simp: in_set_conv_decomp)
  have "j \<notin> fst ` set xs" "j \<notin> fst ` set ys"
    using assms(2) unfolding fs by auto
  then have "filter (\<lambda>(owner, i). i = j) (owned_rows xs) = []"
    "filter (\<lambda>(owner, i). i = j) (owned_rows ys) = []"
    by (simp_all add: other_items_rows)
  moreover have "filter (\<lambda>(owner, i). i = j) (row_of (j, st)) = row_of (j, st)"
    by (cases st) simp_all
  ultimately show ?thesis
    unfolding fs by (simp add: owned_rows_def)
qed

lemma item_console:
  assumes "map_of fs j = Some st" and "distinct (map fst fs)"
  shows "filter (\<lambda>l. l = warn_line j) (concat (map console_of fs)) =
    filter (\<lambda>l. l = warn_line j) (console_of (j, st))"
proof -
  have "(j, st) \<in> set fs"
    using assms(1) by (rule map_of_SomeD)
  then obtain xs ys where fs: "fs = xs @ (j, st) # ys"
    by (auto simp: in_set_conv_decomp)
  have "j \<notin> fst ` set xs" "j \<notin> fst ` set ys"
    using assms(2) unfolding fs by auto
  then have "filter (\<lambda>l. l = warn_line j) (concat (map console_of xs)) = []"
    "filter (\<lambda>l. l = warn_line j) (concat (map console_of ys)) = []"
    by (simp_all add: other_items_console)
  then show ?thesis
    unfolding fs by simp
qed

lemma map_of_tabulate: "j \<in> set js \<Longrightarrow> map_of (map (\<lambda>j. (j, f j)) js) j = Some (f j)"
  by (induction js) auto

lemma terminal_written_once:
  assumes "terminal st"
  shows "length (row_of (j, st)) + length (filter (\<lambda>l. l = warn_line j) (console_of (j, st))) +
    length (log_of (j, st)) = 1"
  using assms by (cases st) (simp_all add: failed_not_warn)

lemma written_once:
  assumes bs: "0 < batchSize cfg" and ex: "exec cfg T evs (init cfg) = Some s"
    and f: "phase s = Finished"
  shows "outcome_count s j = (if startTokenId cfg \<le> j \<and> j \<le> endTokenId cfg then 1 else 0)"
proof -
  have w: "wf_state cfg s" using wf_reachable [OF bs ex] .
  have sk: "sinks_ok cfg s" using sinks_ok_reachable [OF bs ex] .
  have d: "distinct (map fst (fetchers s))" using wf_distinct [OF w] .
  have fs: "fetchers s =
      map (\<lambda>j. (j, fetchItem (retryOpts cfg) T j)) [startTokenId cfg .. endTokenId cfg]"
    using finished_fetchers [OF bs ex f] .
  have rows: "mset (csv s) = mset (owned_rows (fetchers s))"
    using sk f unfolding sinks_ok_def by (cases "sink cfg") simp_all
  have logs: "mset (errorLog s) = mset (concat (map log_of (fetchers s)))"
    and cons: "mset (console s) = mset (concat (map console_of (fetchers s)))"
    using sk unfolding sinks_ok_def by simp_all
  have c: "outcome_count s j =
      length (filter (\<lambda>(owner, i). i = j) (owned_rows (fetchers s))) +
      length (filter (\<lambda>l. l = warn_line j) (concat (map console_of (fetchers s)))) +
      length (filter (prefix (log_prefix j)) (concat (map log_of (fetchers s))))"
    unfolding outcome_count_def
    using length_filter_mset [OF rows] length_filter_mset [OF logs] length_filter_mset [OF cons]
    by simp
  show ?thesis
  proof (cases "startTokenId cfg \<le> j \<and> j \<le> endTokenId cfg")
    case True
    then have "j \<in> set [startTokenId cfg .. endTokenId cfg]" by simp
    then have m: "map_of (fetchers s) j = Some (fetchItem (retryOpts cfg) T j)"
      unfolding fs by (rule map_of_tabulate)
    have t: "terminal (fetchItem (retryOpts cfg) T j)"
      by (simp add: fetchItem_def terminal_attemptFrom)
    show ?thesis
      using True terminal_written_once [OF t, of j]
      unfolding c item_rows [OF m d] item_console [OF m d] item_log [OF m d]
      by simp
  next
    case False
    have "map fst (fetchers s) = [startTokenId cfg .. endTokenId cfg]"
      unfolding fs by (simp add: comp_def)
    then have "set (map fst (fetchers s)) = {startTokenId cfg .. endTokenId cfg}"
      by simp
    then have "j \<notin> fst ` set (fetchers s)"
      using False by auto
    then show ?thesis
      using False unfolding c
      by (simp add: other_items_rows other_items_console other_items_log)
  qed
qed

lemma slept_windows:
  assumes "exec cfg T evs (init cfg) = Some s"
  shows "\<exists>m. loop_i s = startTokenId cfg + int m * batchSize cfg \<and> slept s = m * pacingDelay cfg"
proof (rule exec_invariant [where P = "\<lambda>s. \<exists>m. loop_i s = startTokenId cfg + int m * batchSize cfg \<and>
    slept s = m * pacingDelay cfg", OF _ _ assms])
  show "\<exists>m. loop_i (init cfg) = startTokenId cfg + int m * batchSize cfg \<and>
      slept (init cfg) = m * pacingDelay cfg"
    by (rule exI [of _ 0]) (simp add: init_def for_loop_def)
next
  fix ev s s'
  assume P: "\<exists>m. loop_i s = startTokenId cfg + int m * batchSize cfg \<and> slept s = m * pacingDelay cfg"
    and st: "step cfg T ev s = Some s'"
  then obtain m where m: "loop_i s = startTokenId cfg + int m * batchSize cfg"
    "slept s = m * pacingDelay cfg" by blast
  show "\<exists>m. loop_i s' = startTokenId cfg + int m * batchSize cfg \<and> slept s' = m * pacingDelay cfg"
  proof (cases ev)
    case (Response j)
    then have "loop_i s' = loop_i s" "slept s' = slept s"
      using st by (auto split: option.splits item_state.splits)
    then show ?thesis using m by auto
  next
    case (RetryTimer j)
    then have "loop_i s' = loop_i s" "slept s' = slept s"
      using st by (auto split: option.splits item_state.splits)
    then show ?thesis using m by auto
  next
    case BatchSettled
    then have "loop_i s' = loop_i s" "slept s' = slept s"
      using st by (auto split: if_splits)
    then show ?thesis using m by auto
  next
    case PacingTimer
    then have "loop_i s' = loop_i s + batchSize cfg" "slept s' = slept s + pacingDelay cfg"
      using st by (auto simp: for_loop_def split: if_splits)
    then have "loop_i s' = startTokenId cfg + int (Suc m) * batchSize cfg \<and>
        slept s' = Suc m * pacingDelay cfg"
      using m by (simp add: algebra_simps)
    then show ?thesis by blast
  qed
qed

section \<open>The barrier and the pause pass\<close>

lemma item_enabled:
  assumes w: "wf_state cfg s" and j: "j \<in> set (batchPromises s)"
    and ns: "\<not> settled (fetchers s) j"
  shows "step cfg T (Response j) s \<noteq> None \<or> step cfg T (RetryTimer j) s \<noteq> None"
proof -
  have ids: "map fst (fetchers s) = [startTokenId cfg .. batchEnd cfg (loop_i s)]"
    and bp: "batchPromises s = [loop_i s .. batchEnd cfg (loop_i s)]"
    and lo: "startTokenId cfg \<le> loop_i s"
    using w by (simp_all add: wf_state_def)
  have "j \<in> set [startTokenId cfg .. batchEnd cfg (loop_i s)]"
    using j lo unfolding bp by simp
  then have "j \<in> set (map fst (fetchers s))"
    unfolding ids .
  then obtain st where m: "map_of (fetchers s) j = Some st"
    by (metis map_of_eq_None_iff not_Some_eq set_map)
  have nt: "\<not> terminal st"
    using ns m by (simp add: settled_def)
  show ?thesis
    using m nt by (cases st) simp_all
qed

lemma pause_passes:
  assumes bs: "0 < batchSize cfg" and w: "wf_state cfg s" and pc: "phase s = Pacing"
  shows "\<exists>s'. step cfg T PacingTimer s = Some s' \<and>
    loop_i s' = loop_i s + batchSize cfg \<and> slept s' = slept s + pacingDelay cfg \<and>
    (if loop_i s + batchSize cfg \<le> endTokenId cfg
     then phase s' = Awaiting \<and>
       batchPromises s' = [loop_i s + batchSize cfg ..
         min (loop_i s + batchSize cfg + batchSize cfg - 1) (endTokenId cfg)] \<and>
       list_all (\<lambda>j. map_of (fetchers s') j = Some (InFlight 1)) (batchPromises s')
     else phase s' = Finished)"
proof -
  let ?s' = "for_loop cfg (loop_i s + batchSize cfg) (s\<lparr>slept := slept s + pacingDelay cfg\<rparr>)"
  have st: "step cfg T PacingTimer s = Some ?s'"
    using pc by simp
  have l: "loop_i ?s' = loop_i s + batchSize cfg"
    by (simp add: for_loop_def)
  then have ne: "loop_i ?s' \<noteq> loop_i s"
    using bs by simp
  note A = advance_only_by_pacing [OF bs w st ne]
  have sl: "slept ?s' = slept s + pacingDelay cfg"
    using A by blast
  have nw: "phase ?s' = Awaiting \<and>
       batchPromises ?s' = [loop_i s + batchSize cfg ..
         min (loop_i s + batchSize cfg + batchSize cfg - 1) (endTokenId cfg)] \<and>
       list_all (\<lambda>j. map_of (fetchers ?s') j = Some (InFlight 1)) (batchPromises ?s')"
    if le: "loop_i s + batchSize cfg \<le> endTokenId cfg"
  proof -
    have p: "phase ?s' = Awaiting"
      and b: "batchPromises ?s' = [loop_i s + batchSize cfg ..
         min (loop_i s + batchSize cfg + batchSize cfg - 1) (endTokenId cfg)]"
      using le by (simp_all add: for_loop_def batchEnd_def)
    show ?thesis using p b A by blast
  qed
  have fin: "phase ?s' = Finished" if "\<not> loop_i s + batchSize cfg \<le> endTokenId cfg"
    using that by (simp add: for_loop_def)
  show ?thesis
  proof (cases "loop_i s + batchSize cfg \<le> endTokenId cfg")
    case True
    show ?thesis
      unfolding if_P [OF True] using st l sl nw [OF True] by blast
  next
    case False
    show ?thesis
      unfolding if_not_P [OF False] using st l sl fin [OF False] by blast
  qed
qed

lemma item_log_reachable:
  assumes bs: "0 < batchSize cfg" and ex: "exec cfg T evs (init cfg) = Some s"
    and m: "map_of (fetchers s) j = Some st"
  shows "filter (prefix (log_prefix j)) (errorLog s) = log_of (j, st)"
proof -
  have w: "wf_state cfg s" using wf_reachable [OF bs ex] .
  have sk: "sinks_ok cfg s" using sinks_ok_reachable [OF bs ex] .
  have "mset (filter (prefix (log_prefix j)) (errorLog s)) =
      mset (filter (prefix (log_prefix j)) (concat (map log_of (fetchers s))))"
    using sk unfolding sinks_ok_def mset_filter by simp
  also have "\<dots> = mset (log_of (j, st))"
    using item_log [OF m wf_distinct [OF w]] by simp
  finally have l: "mset (filter (prefix (log_prefix j)) (errorLog s)) = mset (log_of (j, st))" .
  show ?thesis
  proof (cases st)
    case (Failed k msg)
    then show ?thesis using l by (simp del: mset_filter)
  qed (use l in \<open>simp_all del: mset_filter\<close>)
qed

lemma in_range_of_started:
  assumes w: "wf_state cfg s" and m: "map_of (fetchers s) j = Some st"
  shows "startTokenId cfg \<le> j \<and> j \<le> endTokenId cfg"
proof -
  have "(j, st) \<in> set (fetchers s)" using m by (rule map_of_SomeD)
  then have "j \<in> set (map fst (fetchers s))" by force
  moreover have "map fst (fetchers s) = [startTokenId cfg .. batchEnd cfg (loop_i s)]"
    using w by (simp add: wf_state_def)
  ultimately have "j \<in> set [startTokenId cfg .. batchEnd cfg (loop_i s)]" by metis
  then show ?thesis
    using batchEnd_le [of cfg "loop_i s"] by simp
qed

lemma finished_item:
  assumes bs: "0 < batchSize cfg" and ex: "exec cfg T evs (init cfg) = Some s"
    and f: "phase s = Finished" and j: "startTokenId cfg \<le> j" "j \<le> endTokenId cfg"
  shows "map_of (fetchers s) j = Some (fetchItem (retryOpts cfg) T j)"
proof -
  have "j \<in> set [startTokenId cfg .. endTokenId cfg]" using j by simp
  then show ?thesis
    unfolding finished_fetchers [OF bs ex f] by (rule map_of_tabulate)
qed

lemma demo_settled_run:
  "exec demo_config T_demo [Response 1002, Response 1001] (init demo_config) =
     Some (demo_paced\<lparr>phase := Awaiting\<rparr>)"
  by (simp add: demo_init demo_paced_def T_demo_def
      on_response_def settle_def classify_invalid_id_error set_item_def record_owner_def
      warn_line_def toString_def decimal.simps)

lemma flaky_first_answer:
  "step demo_config T_flaky (Response 1002) (init demo_config) =
     Some ((init demo_config)\<lparr>fetchers := [(1001, InFlight 1), (1002, RetryScheduled 1 1000)]\<rparr>)"
  by (simp add: demo_init T_flaky_def on_response_def settle_def classify_transient_error
      set_item_def isExhausted_def maxAttempts_def retryOptions_def nextDelay_def Let_def)

section \<open>The claims\<close>

subsection \<open>Every token has one outcome\<close>

text \<open>
  Claim C1. For every range, batch size (at least 1) and order of events, every run can
  be continued until it returns, and a run that has not returned can always take a step.
  When the run has returned the fetches started are exactly those of the tokens
  \<open>start .. end\<close>, each token once and in this order, and each is in a terminal state:
  the outcome of the token's own fetch. Every token of the range is then recorded exactly
  once, as a row of the file, a warning on the console or a line of the error log, and no
  other token is recorded at all. Every token has incremented the progress bar once; the
  csv file holds the owned tokens only, no token twice and none outside the range, an
  absent token has its warning and a failed one its log line.
\<close>

theorem result_set_exact:
  assumes "0 < batchSize cfg" and "exec cfg T evs (init cfg) = Some s"
  shows "(\<exists>evs' s'. exec cfg T (evs @ evs') (init cfg) = Some s' \<and> phase s' = Finished \<and>
       map fst (fetchers s') = [startTokenId cfg .. endTokenId cfg] \<and>
       list_all (\<lambda>(j, st). terminal st \<and> st = fetchItem (retryOpts cfg) T j) (fetchers s') \<and>
       (\<forall>j. outcome_count s' j =
          (if startTokenId cfg \<le> j \<and> j \<le> endTokenId cfg then 1 else 0))) \<and>
    (phase s \<noteq> Finished \<longrightarrow> (\<exists>ev s'. step cfg T ev s = Some s')) \<and>
    (phase s = Finished \<longrightarrow>
       map fst (fetchers s) = [startTokenId cfg .. endTokenId cfg] \<and>
       distinct (map fst (fetchers s)) \<and>
       set (map fst (fetchers s)) = {startTokenId cfg .. endTokenId cfg} \<and>
       list_all (\<lambda>(j, st). terminal st \<and> st = fetchItem (retryOpts cfg) T j) (fetchers s) \<and>
       progress s = length [startTokenId cfg .. endTokenId cfg] \<and>
       mset (csv s) = mset (owned_rows (fetchers s)) \<and>
       distinct (map snd (csv s)) \<and>
       set (map snd (csv s)) \<subseteq> {startTokenId cfg .. endTokenId cfg} \<and>
       mset (errorLog s) = mset (concat (map log_of (fetchers s))) \<and>
       mset (console s) = mset (concat (map console_of (fetchers s))) \<and>
       (\<forall>j. outcome_count s j =
          (if startTokenId cfg \<le> j \<and> j \<le> endTokenId cfg then 1 else 0)))"
proof -
  have w: "wf_state cfg s" using wf_reachable [OF assms] .
  obtain evs' s' where e': "exec cfg T (evs @ evs') (init cfg) = Some s'"
    and f': "phase s' = Finished"
    using completed_after [OF assms] by blast
  have a: "\<exists>evs' s'. exec cfg T (evs @ evs') (init cfg) = Some s' \<and> phase s' = Finished \<and>
       map fst (fetchers s') = [startTokenId cfg .. endTokenId cfg] \<and>
       list_all (\<lambda>(j, st). terminal st \<and> st = fetchItem (retryOpts cfg) T j) (fetchers s') \<and>
       (\<forall>j. outcome_count s' j =
          (if startTokenId cfg \<le> j \<and> j \<le> endTokenId cfg then 1 else 0))"
    using e' f' returned_result_set [OF assms(1) e' f'] written_once [OF assms(1) e' f'] by blast
  have b: "phase s \<noteq> Finished \<Longrightarrow> \<exists>ev s'. step cfg T ev s = Some s'"
    using step_enabled [OF w] .
  show ?thesis
    using a b returned_result_set [OF assms] written_once [OF assms] by blast
qed

theorem result_set_exact_witness:
  "0 < batchSize demo_config \<and>
   exec demo_config T_demo demo_schedule (init demo_config) = Some demo_final \<and>
   phase demo_final = Finished \<and>
   map fst (fetchers demo_final) = [1001, 1002, 1003] \<and>
   fetchers demo_final = [(1001, Succeeded 1 ''0xA''), (1002, Absent 1), (1003, Succeeded 1 ''0xB'')] \<and>
   list_all (\<lambda>(j, st). terminal st \<and> st = fetchItem (retryOpts demo_config) T_demo j)
     (fetchers demo_final) \<and>
   progress demo_final = 3 \<and>
   distinct (map snd (csv demo_final)) \<and> map snd (csv demo_final) = [1001, 1003] \<and>
   outcome_count demo_final 1001 = 1 \<and> outcome_count demo_final 1002 = 1 \<and>
   outcome_count demo_final 1003 = 1 \<and> outcome_count demo_final 1004 = 0 \<and>
   exec demo_config T_demo [Response 1002, Response 1001, BatchSettled] (init demo_config) =
     Some demo_paced \<and>
   phase demo_paced \<noteq> Finished \<and>
   (\<exists>ev s'. step demo_config T_demo ev demo_paced = Some s') \<and>
   (\<exists>evs' s'. exec demo_config T_demo ([Response 1002, Response 1001, BatchSettled] @ evs')
        (init demo_config) = Some s' \<and> phase s' = Finished \<and>
      map fst (fetchers s') = [1001, 1002, 1003] \<and> outcome_count s' 1003 = 1)"
proof -
  have b: "0 < batchSize demo_config" by simp
  have f: "phase demo_final = Finished" by (simp add: demo_final_def)
  have nf: "phase demo_paced \<noteq> Finished" by (simp add: demo_paced_def)
  have u: "[startTokenId demo_config .. endTokenId demo_config] = [1001, 1002, 1003]"
    by (simp add: upto_rec_numeral)
  note R = result_set_exact [OF b demo_run]
  note P = result_set_exact [OF b demo_paced_run]
  have 1: "map fst (fetchers demo_final) = [1001, 1002, 1003] \<and>
      list_all (\<lambda>(j, st). terminal st \<and> st = fetchItem (retryOpts demo_config) T_demo j)
        (fetchers demo_final) \<and>
      progress demo_final = 3 \<and> distinct (map snd (csv demo_final))"
    using R f u by simp
  have oc: "\<forall>j. outcome_count demo_final j =
      (if startTokenId demo_config \<le> j \<and> j \<le> endTokenId demo_config then 1 else 0)"
    using R f by blast
  have 2: "outcome_count demo_final 1001 = 1 \<and> outcome_count demo_final 1002 = 1 \<and>
      outcome_count demo_final 1003 = 1 \<and> outcome_count demo_final 1004 = 0"
    using oc by simp
  have 3: "fetchers demo_final =
      [(1001, Succeeded 1 ''0xA''), (1002, Absent 1), (1003, Succeeded 1 ''0xB'')] \<and>
      map snd (csv demo_final) = [1001, 1003]"
    by (simp add: demo_final_def)
  have 4: "\<exists>ev s'. step demo_config T_demo ev demo_paced = Some s'"
    using P nf by blast
  obtain evs' s' where c: "exec demo_config T_demo ([Response 1002, Response 1001, BatchSettled] @ evs')
        (init demo_config) = Some s'" "phase s' = Finished"
      "map fst (fetchers s') = [startTokenId demo_config .. endTokenId demo_config]"
      "\<forall>j. outcome_count s' j =
          (if startTokenId demo_config \<le> j \<and> j \<le> endTokenId demo_config then 1 else 0)"
    using P by blast
  have "outcome_count s' 1003 = 1"
    using c(4) by simp
  then have 5: "\<exists>evs' s'. exec demo_config T_demo ([Response 1002, Response 1001, BatchSettled] @ evs')
        (init demo_config) = Some s' \<and> phase s' = Finished \<and>
      map fst (fetchers s') = [1001, 1002, 1003] \<and> outcome_count s' 1003 = 1"
    using c u by metis
  show ?thesis
    using b demo_run f 1 2 3 demo_paced_run nf 4 5 by blast
qed

subsection \<open>Order of the rows\<close>

text \<open>
  Claim C2 fails on \<^verbatim>\<open>get_nft_owners_by_id.mjs\<close>, which writes each row as its call
  returns. With the constants of the script and every call succeeding, the run in which
  the answer for token 1002 arrives before the answer for token 1001 can be completed,
  and when it has returned the file holds token 1002 before token 1001: the rows are not
  ascending.
\<close>

theorem by_id_rows_out_of_order:
  "\<exists>evs s. exec by_id_config T_ok ([Response 1002, Response 1001] @ evs) (init by_id_config) = Some s \<and>
      phase s = Finished \<and> take 2 (map snd (csv s)) = [1002, 1001] \<and>
      \<not> sorted_wrt (<) (map snd (csv s))"
proof -
  have b: "0 < batchSize by_id_config" by simp
  obtain evs s where
    e: "exec by_id_config T_ok ([Response 1002, Response 1001] @ evs) (init by_id_config) = Some s"
    and f: "phase s = Finished"
    using completed_after [OF b by_id_two_answers] by blast
  show ?thesis
    using e f by_id_every_completion [OF e] by blast
qed

subsection \<open>Batch scheduler\<close>

text \<open>
  Claim C3. In every state of a run the loop variable is the start plus a multiple of the
  batch size, with one pause slept for each window passed, and while the run has not
  returned the current batch is the window from the loop variable to
  \<open>min (i + batchSize - 1) end\<close>: not empty, of at most \<open>batchSize\<close> tokens, and of exactly
  \<open>batchSize\<close> unless the range ends inside it. While a token of the batch is not terminal
  neither the barrier nor the pause can pass, and every such token can take its next
  step (the answer of its call or its retry timer); once all are terminal the barrier
  passes and the pause begins. The timer of the pause then adds the pause to the time
  slept, moves the loop variable on by \<open>batchSize\<close> and starts the next window, every token
  of it in flight at its first attempt, or ends the run when the range is exhausted.
  The loop variable changes in no other way. The first window starts the same way at
  the start of the range, and every run can be continued until it has returned with
  every window processed.
\<close>

theorem batch_scheduler:
  assumes "0 < batchSize cfg" and "exec cfg T evs (init cfg) = Some s"
  shows "(\<exists>m. loop_i s = startTokenId cfg + int m * batchSize cfg \<and>
       slept s = m * pacingDelay cfg) \<and>
    (phase s \<noteq> Finished \<longrightarrow>
       loop_i s \<le> endTokenId cfg \<and>
       batchPromises s = [loop_i s .. min (loop_i s + batchSize cfg - 1) (endTokenId cfg)] \<and>
       0 < length (batchPromises s) \<and> length (batchPromises s) \<le> nat (batchSize cfg) \<and>
       (loop_i s + batchSize cfg - 1 \<le> endTokenId cfg \<longrightarrow>
          length (batchPromises s) = nat (batchSize cfg))) \<and>
    (phase s = Awaiting \<and> \<not> list_all (settled (fetchers s)) (batchPromises s) \<longrightarrow>
       step cfg T BatchSettled s = None \<and> step cfg T PacingTimer s = None) \<and>
    (phase s = Awaiting \<longrightarrow>
       list_all (\<lambda>j. settled (fetchers s) j \<or> step cfg T (Response j) s \<noteq> None \<or>
         step cfg T (RetryTimer j) s \<noteq> None) (batchPromises s)) \<and>
    (phase s = Awaiting \<and> list_all (settled (fetchers s)) (batchPromises s) \<longrightarrow>
       step cfg T BatchSettled s = Some (s\<lparr>phase := Pacing\<rparr>)) \<and>
    (phase s = Pacing \<longrightarrow> list_all (\<lambda>(j, st). terminal st) (fetchers s)) \<and>
    (phase s = Pacing \<longrightarrow>
       (\<exists>s'. step cfg T PacingTimer s = Some s' \<and>
          loop_i s' = loop_i s + batchSize cfg \<and> slept s' = slept s + pacingDelay cfg \<and>
          (if loop_i s + batchSize cfg \<le> endTokenId cfg
           then phase s' = Awaiting \<and>
             batchPromises s' = [loop_i s + batchSize cfg ..
               min (loop_i s + batchSize cfg + batchSize cfg - 1) (endTokenId cfg)] \<and>
             list_all (\<lambda>j. map_of (fetchers s') j = Some (InFlight 1)) (batchPromises s')
           else phase s' = Finished))) \<and>
    (\<forall>ev s'. step cfg T ev s = Some s' \<and> loop_i s' \<noteq> loop_i s \<longrightarrow>
       ev = PacingTimer \<and> phase s = Pacing \<and>
       list_all (\<lambda>(j, st). terminal st) (fetchers s) \<and>
       loop_i s' = loop_i s + batchSize cfg \<and> slept s' = slept s + pacingDelay cfg \<and>
       (phase s' = Awaiting \<longrightarrow>
          list_all (\<lambda>j. map_of (fetchers s') j = Some (InFlight 1)) (batchPromises s'))) \<and>
    (phase (init cfg) = Awaiting \<longrightarrow> loop_i (init cfg) = startTokenId cfg \<and>
       list_all (\<lambda>j. map_of (fetchers (init cfg)) j = Some (InFlight 1))
         (batchPromises (init cfg))) \<and>
    (\<exists>evs' s'. exec cfg T (evs @ evs') (init cfg) = Some s' \<and> phase s' = Finished \<and>
       map fst (fetchers s') = [startTokenId cfg .. endTokenId cfg] \<and>
       list_all (\<lambda>(j, st). terminal st) (fetchers s'))"
proof -
  have w: "wf_state cfg s" using wf_reachable [OF assms] .
  note S = batch_safety [OF assms]
  have a: "\<exists>m. loop_i s = startTokenId cfg + int m * batchSize cfg \<and> slept s = m * pacingDelay cfg"
    using slept_windows [OF assms(2)] .
  have b: "list_all (\<lambda>j. settled (fetchers s) j \<or> step cfg T (Response j) s \<noteq> None \<or>
         step cfg T (RetryTimer j) s \<noteq> None) (batchPromises s)"
    unfolding list_all_iff using item_enabled [OF w] by blast
  have c: "step cfg T BatchSettled s = Some (s\<lparr>phase := Pacing\<rparr>)"
    if "phase s = Awaiting \<and> list_all (settled (fetchers s)) (batchPromises s)"
    using that by simp
  note d = pause_passes [OF assms(1) w, of T]
  obtain evs' s' where e': "exec cfg T (evs @ evs') (init cfg) = Some s'"
    and f': "phase s' = Finished"
    using completed_after [OF assms] by blast
  have "fetchers s' =
      map (\<lambda>j. (j, fetchItem (retryOpts cfg) T j)) [startTokenId cfg .. endTokenId cfg]"
    using finished_fetchers [OF assms(1) e' f'] .
  then have "map fst (fetchers s') = [startTokenId cfg .. endTokenId cfg]"
    "list_all (\<lambda>(j, st). terminal st) (fetchers s')"
    by (simp_all add: comp_def list_all_iff fetchItem_def terminal_attemptFrom)
  then have e: "\<exists>evs' s'. exec cfg T (evs @ evs') (init cfg) = Some s' \<and> phase s' = Finished \<and>
       map fst (fetchers s') = [startTokenId cfg .. endTokenId cfg] \<and>
       list_all (\<lambda>(j, st). terminal st) (fetchers s')"
    using e' f' by blast
  show ?thesis
    using S a b c d e by blast
qed

theorem batch_scheduler_witness:
  "0 < batchSize demo_config \<and>
   exec demo_config T_demo [Response 1002, Response 1001] (init demo_config) =
     Some (demo_paced\<lparr>phase := Awaiting\<rparr>) \<and>
   phase (demo_paced\<lparr>phase := Awaiting\<rparr>) = Awaiting \<and>
   list_all (settled (fetchers (demo_paced\<lparr>phase := Awaiting\<rparr>)))
     (batchPromises (demo_paced\<lparr>phase := Awaiting\<rparr>)) \<and>
   step demo_config T_demo BatchSettled (demo_paced\<lparr>phase := Awaiting\<rparr>) = Some demo_paced \<and>
   exec demo_config T_demo [Response 1002, Response 1001, BatchSettled] (init demo_config) =
     Some demo_paced \<and>
   step demo_config T_demo PacingTimer demo_paced = Some demo_second \<and>
   loop_i demo_second \<noteq> loop_i demo_paced \<and>
   phase demo_paced = Pacing \<and>
   batchPromises demo_paced = [1001, 1002] \<and>
   list_all (\<lambda>(j, st). terminal st) (fetchers demo_paced) \<and>
   loop_i demo_second = loop_i demo_paced + batchSize demo_config \<and>
   slept demo_second = slept demo_paced + pacingDelay demo_config \<and>
   phase demo_second = Awaiting \<and> batchPromises demo_second = [1003] \<and>
   list_all (\<lambda>j. map_of (fetchers demo_second) j = Some (InFlight 1)) (batchPromises demo_second) \<and>
   (\<exists>evs' s'. exec demo_config T_demo ([Response 1002, Response 1001, BatchSettled] @ evs')
        (init demo_config) = Some s' \<and> phase s' = Finished \<and>
      map fst (fetchers s') = [1001, 1002, 1003])"
proof -
  have b: "0 < batchSize demo_config" by simp
  have ne: "loop_i demo_second \<noteq> loop_i demo_paced"
    by (simp add: demo_second_def demo_paced_def)
  have aw: "phase demo_second = Awaiting" "phase demo_paced \<noteq> Finished"
    "phase demo_paced = Pacing" "batchPromises demo_second = [1003]"
    by (simp_all add: demo_second_def demo_paced_def)
  have bp: "[1001 .. min (1001 + 2 - 1) 1003] = [1001, 1002 :: int]"
    by (simp add: upto_rec_numeral)
  have u: "[startTokenId demo_config .. endTokenId demo_config] = [1001, 1002, 1003]"
    by (simp add: upto_rec_numeral)
  have l: "loop_i demo_paced = 1001"
    by (simp add: demo_paced_def)
  have sa: "phase (demo_paced\<lparr>phase := Awaiting\<rparr>) = Awaiting"
    "list_all (settled (fetchers (demo_paced\<lparr>phase := Awaiting\<rparr>)))
       (batchPromises (demo_paced\<lparr>phase := Awaiting\<rparr>))"
    "(demo_paced\<lparr>phase := Awaiting\<rparr>)\<lparr>phase := Pacing\<rparr> = demo_paced"
    by (simp_all add: demo_paced_def settled_def)
  note Q = batch_scheduler [OF b demo_settled_run]
  have 0: "step demo_config T_demo BatchSettled (demo_paced\<lparr>phase := Awaiting\<rparr>) =
      Some ((demo_paced\<lparr>phase := Awaiting\<rparr>)\<lparr>phase := Pacing\<rparr>)"
    using Q sa(1,2) by blast
  note R = batch_scheduler [OF b demo_paced_run]
  have "batchPromises demo_paced =
      [loop_i demo_paced .. min (loop_i demo_paced + batchSize demo_config - 1) (endTokenId demo_config)]"
    using R aw by blast
  then have 1: "batchPromises demo_paced = [1001, 1002]"
    using bp l by simp
  have 2: "PacingTimer = PacingTimer \<and> phase demo_paced = Pacing \<and>
       list_all (\<lambda>(j, st). terminal st) (fetchers demo_paced) \<and>
       loop_i demo_second = loop_i demo_paced + batchSize demo_config \<and>
       slept demo_second = slept demo_paced + pacingDelay demo_config \<and>
       (phase demo_second = Awaiting \<longrightarrow>
          list_all (\<lambda>j. map_of (fetchers demo_second) j = Some (InFlight 1))
            (batchPromises demo_second))"
    using R demo_second_step ne by blast
  have "\<exists>evs' s'. exec demo_config T_demo ([Response 1002, Response 1001, BatchSettled] @ evs')
        (init demo_config) = Some s' \<and> phase s' = Finished \<and>
      map fst (fetchers s') = [startTokenId demo_config .. endTokenId demo_config]"
    using R by blast
  then have 3: "\<exists>evs' s'. exec demo_config T_demo ([Response 1002, Response 1001, BatchSettled] @ evs')
        (init demo_config) = Some s' \<and> phase s' = Finished \<and>
      map fst (fetchers s') = [1001, 1002, 1003]"
    unfolding u .
  show ?thesis
    using 0 1 2 3 aw b sa demo_settled_run demo_paced_run demo_second_step ne
    by (simp del: step.simps exec.simps)
qed

subsection \<open>Retry policy\<close>

text \<open>
  Claim C4. The delay of the retry policy at attempt \<open>k\<close> (counted from 1) is
  \<open>min (baseDelay * growthFactor ^ (k - 1)) maxDelay\<close>; with the options of the scripts
  (base 1000, factor 2, maximum 8000) the delays of the attempts 1 to 5 are 1000, 2000,
  4000, 8000 and 8000; the policy is exhausted exactly when the attempt index exceeds
  \<open>maxAttempts\<close>. The last conjunct is how the fetch uses the policy: after the \<open>k\<close>-th
  call has failed with an error that is not the invalid-id one, the retry is scheduled
  with that delay when attempt \<open>k + 1\<close> is within the budget, and the fetch fails otherwise.
\<close>

theorem retry_policy_delays:
  "nextDelay opts k = min (minTimeout opts * factor opts ^ (k - 1)) (maxTimeout opts) \<and>
   map (nextDelay retryOptions) [1, 2, 3, 4, 5] = [1000, 2000, 4000, 8000, 8000] \<and>
   (isExhausted opts attemptIndex \<longleftrightarrow> maxAttempts opts < attemptIndex) \<and>
   settle opts k (Inl e) =
     (if classify e = PermanentAbsence then Absent k
      else if Suc k \<le> maxAttempts opts then RetryScheduled k (nextDelay opts k)
      else Failed k (message e))"
  by (simp add: nextDelay_def retryOptions_def isExhausted_def settle_def not_less)

subsection \<open>Call classifier\<close>



subsection \<open>Exhausted retries\<close>

text \<open>
  Claim C6. Take a token of the range whose every attempt within the budget fails with
  an error that is not the invalid-id one. From every state of a run the run can be
  continued until it returns, and it then holds the token as \<open>Failed\<close> after exactly
  \<open>maxAttempts\<close> attempts, with the message of the error of the last attempt, and the error
  log holds exactly one line of the token:
  \<^verbatim>\<open>Error fetching owner for token ID <id>: <message>\<close> and a line feed. On the way, the
  answer to its \<open>k\<close>-th call schedules a retry while \<open>k\<close> is below \<open>maxAttempts\<close> and makes the
  fetch \<open>Failed\<close> at \<open>maxAttempts\<close>; the timer of a scheduled retry starts the next attempt;
  the fetch never makes more than \<open>maxAttempts\<close> attempts, is terminal only as that
  \<open>Failed\<close>, and once terminal neither an answer nor a retry timer can occur for it. The
  error log holds no line of the token before it has failed.
\<close>

theorem exhaustion_failed:
  assumes "0 < batchSize cfg" and "exec cfg T evs (init cfg) = Some s"
    and "startTokenId cfg \<le> j" and "j \<le> endTokenId cfg"
    and "\<forall>k. 1 \<le> k \<and> k \<le> maxAttempts (retryOpts cfg) \<longrightarrow>
           (\<exists>e. T j k = Inl e \<and> classify e = Transient)"
  shows "\<exists>e. T j (maxAttempts (retryOpts cfg)) = Inl e \<and> classify e = Transient \<and>
      (\<exists>evs' s'. exec cfg T evs' s = Some s' \<and> phase s' = Finished \<and>
         map_of (fetchers s') j = Some (Failed (maxAttempts (retryOpts cfg)) (message e)) \<and>
         filter (prefix (log_prefix j)) (errorLog s') = [error_line j (message e)]) \<and>
      (phase s = Finished \<longrightarrow>
         map_of (fetchers s) j = Some (Failed (maxAttempts (retryOpts cfg)) (message e))) \<and>
      (\<forall>st. map_of (fetchers s) j = Some st \<longrightarrow>
         1 \<le> attemptsMade st \<and> attemptsMade st \<le> maxAttempts (retryOpts cfg) \<and>
         (terminal st \<longrightarrow> st = Failed (maxAttempts (retryOpts cfg)) (message e)) \<and>
         (terminal st \<longrightarrow>
            step cfg T (Response j) s = None \<and> step cfg T (RetryTimer j) s = None) \<and>
         filter (prefix (log_prefix j)) (errorLog s) =
           (if terminal st then [error_line j (message e)] else []) \<and>
         (\<forall>k. st = InFlight k \<longrightarrow>
            (\<exists>s'. step cfg T (Response j) s = Some s' \<and>
               map_of (fetchers s') j =
                 Some (if k < maxAttempts (retryOpts cfg)
                       then RetryScheduled k (nextDelay (retryOpts cfg) k)
                       else Failed (maxAttempts (retryOpts cfg)) (message e)))) \<and>
         (\<forall>k d. st = RetryScheduled k d \<longrightarrow>
            (\<exists>s'. step cfg T (RetryTimer j) s = Some s' \<and>
               map_of (fetchers s') j = Some (InFlight (Suc k)))))"
proof -
  let ?M = "maxAttempts (retryOpts cfg)"
  have ok: "items_ok cfg T s" using items_ok_reachable [OF assms(2)] .
  obtain e where e: "T j ?M = Inl e" "classify e = Transient"
    and f: "fetchItem (retryOpts cfg) T j = Failed ?M (message e)"
    using attemptFrom_all_transient [OF assms(5), of 1]
    by (auto simp: fetchItem_def maxAttempts_def)
  obtain evs' s' where e': "exec cfg T (evs @ evs') (init cfg) = Some s'"
    and f': "phase s' = Finished" and r': "exec cfg T evs' s = Some s'"
    using completed_after [OF assms(1,2)] by blast
  have m': "map_of (fetchers s') j = Some (Failed ?M (message e))"
    using finished_item [OF assms(1) e' f' assms(3,4)] f by simp
  have l': "filter (prefix (log_prefix j)) (errorLog s') = [error_line j (message e)]"
    using item_log_reachable [OF assms(1) e' m'] by simp
  have a: "\<exists>evs' s'. exec cfg T evs' s = Some s' \<and> phase s' = Finished \<and>
         map_of (fetchers s') j = Some (Failed ?M (message e)) \<and>
         filter (prefix (log_prefix j)) (errorLog s') = [error_line j (message e)]"
    using r' f' m' l' by blast
  have b: "map_of (fetchers s) j = Some (Failed ?M (message e))" if "phase s = Finished"
    using finished_item [OF assms(1,2) that assms(3,4)] f by simp
  have c: "1 \<le> attemptsMade st \<and> attemptsMade st \<le> ?M \<and>
         (terminal st \<longrightarrow> st = Failed ?M (message e)) \<and>
         (terminal st \<longrightarrow>
            step cfg T (Response j) s = None \<and> step cfg T (RetryTimer j) s = None) \<and>
         filter (prefix (log_prefix j)) (errorLog s) =
           (if terminal st then [error_line j (message e)] else []) \<and>
         (\<forall>k. st = InFlight k \<longrightarrow>
            (\<exists>s'. step cfg T (Response j) s = Some s' \<and>
               map_of (fetchers s') j =
                 Some (if k < ?M then RetryScheduled k (nextDelay (retryOpts cfg) k)
                       else Failed ?M (message e)))) \<and>
         (\<forall>k d. st = RetryScheduled k d \<longrightarrow>
            (\<exists>s'. step cfg T (RetryTimer j) s = Some s' \<and>
               map_of (fetchers s') j = Some (InFlight (Suc k))))"
    if m: "map_of (fetchers s) j = Some st" for st
  proof -
    obtain e0 where old: "T j ?M = Inl e0"
      "1 \<le> attemptsMade st \<and> attemptsMade st \<le> ?M"
      "terminal st \<longrightarrow> st = Failed ?M (message e0)"
      "terminal st \<longrightarrow>
         step cfg T (Response j) s = None \<and> step cfg T (RetryTimer j) s = None"
      "filter (prefix (log_prefix j)) (errorLog s) =
        (if terminal st then [error_line j (message e0)] else [])"
      using exhaustion_states [OF assms(1,2) m assms(5)] by blast
    have e0: "e0 = e" using old(1) e(1) by simp
    have mem: "(j, st) \<in> set (fetchers s)" using m by (rule map_of_SomeD)
    have inf: "\<exists>s'. step cfg T (Response j) s = Some s' \<and>
               map_of (fetchers s') j =
                 Some (if k < ?M then RetryScheduled k (nextDelay (retryOpts cfg) k)
                       else Failed ?M (message e))"
      if st: "st = InFlight k" for k
    proof -
      have k: "1 \<le> k" "k \<le> ?M"
        using old(2) st by simp_all
      obtain ek where ek: "T j k = Inl ek" "classify ek = Transient"
        using assms(5) k by blast
      have "k = ?M \<Longrightarrow> ek = e" using ek(1) e(1) by simp
      then have se: "settle (retryOpts cfg) k (T j k) =
          (if k < ?M then RetryScheduled k (nextDelay (retryOpts cfg) k)
           else Failed ?M (message e))"
        using ek k by (auto simp: settle_def isExhausted_def)
      have "step cfg T (Response j) s = Some (on_response cfg j k (T j k) s)"
        using m st by simp
      moreover have "map_of (fetchers (on_response cfg j k (T j k) s)) j =
          Some (settle (retryOpts cfg) k (T j k))"
        using m by (simp add: map_of_set_item)
      ultimately show ?thesis using se by simp
    qed
    have rs: "\<exists>s'. step cfg T (RetryTimer j) s = Some s' \<and>
               map_of (fetchers s') j = Some (InFlight (Suc k))"
      if st: "st = RetryScheduled k d" for k d
      using m st by (simp add: map_of_set_item)
    show ?thesis
      using old(2-5) inf rs unfolding e0 by blast
  qed
  show ?thesis
    using e a b c by blast
qed

theorem exhaustion_failed_witness:
  "0 < batchSize demo_config \<and>
   startTokenId demo_config \<le> 1002 \<and> 1002 \<le> endTokenId demo_config \<and>
   exec demo_config T_flaky flaky_schedule (init demo_config) = Some flaky_final \<and>
   phase flaky_final = Finished \<and>
   map_of (fetchers flaky_final) 1002 = Some (Failed 11 ''request timeout'') \<and>
   T_flaky 1002 11 = Inl transient_error \<and> classify transient_error = Transient \<and>
   maxAttempts (retryOpts demo_config) = 11 \<and>
   step demo_config T_flaky (Response 1002) flaky_final = None \<and>
   step demo_config T_flaky (RetryTimer 1002) flaky_final = None \<and>
   filter (prefix (log_prefix 1002)) (errorLog flaky_final) =
     [''Error fetching owner for token ID 1002: request timeout'' @ [CHR 0x0A]] \<and>
   exec demo_config T_flaky [] (init demo_config) = Some (init demo_config) \<and>
   map_of (fetchers (init demo_config)) 1002 = Some (InFlight 1) \<and>
   (\<exists>s'. step demo_config T_flaky (Response 1002) (init demo_config) = Some s' \<and>
      map_of (fetchers s') 1002 = Some (RetryScheduled 1 1000)) \<and>
   (\<exists>evs' s'. exec demo_config T_flaky evs' (init demo_config) = Some s' \<and> phase s' = Finished \<and>
      map_of (fetchers s') 1002 = Some (Failed 11 ''request timeout'') \<and>
      filter (prefix (log_prefix 1002)) (errorLog s') =
        [''Error fetching owner for token ID 1002: request timeout'' @ [CHR 0x0A]])"
proof -
  have b: "0 < batchSize demo_config" and r: "startTokenId demo_config \<le> 1002"
    "1002 \<le> endTokenId demo_config" by simp_all
  have m: "map_of (fetchers flaky_final) 1002 = Some (Failed 11 ''request timeout'')"
    by (simp add: flaky_final_def)
  have M: "maxAttempts (retryOpts demo_config) = 11"
    by (simp add: maxAttempts_def retryOptions_def)
  have tr: "\<forall>k. 1 \<le> k \<and> k \<le> maxAttempts (retryOpts demo_config) \<longrightarrow>
           (\<exists>e. T_flaky 1002 k = Inl e \<and> classify e = Transient)"
    by (simp add: T_flaky_def classify_transient_error)
  have t: "T_flaky 1002 11 = Inl transient_error"
    by (simp add: T_flaky_def)
  have f: "phase flaky_final = Finished"
    by (simp add: flaky_final_def)
  have el: "error_line 1002 (message transient_error) =
      ''Error fetching owner for token ID 1002: request timeout'' @ [CHR 0x0A]"
    by (simp add: error_line_def toString_def decimal.simps message_transient_error)
  have mt: "message transient_error = ''request timeout''"
    by (rule message_transient_error)
  have el2: "error_line 1002 ''request timeout'' =
      ''Error fetching owner for token ID 1002: request timeout'' @ [CHR 0x0A]"
    using el unfolding mt .
  have nd: "nextDelay (retryOpts demo_config) 1 = 1000"
    by (simp add: nextDelay_def retryOptions_def)
  have e0: "exec demo_config T_flaky [] (init demo_config) = Some (init demo_config)"
    by simp
  have m0: "map_of (fetchers (init demo_config)) 1002 = Some (InFlight 1)"
    by (simp add: demo_init)
  obtain e where e: "T_flaky 1002 (maxAttempts (retryOpts demo_config)) = Inl e"
    and A: "\<forall>st. map_of (fetchers flaky_final) 1002 = Some st \<longrightarrow>
         (terminal st \<longrightarrow>
            step demo_config T_flaky (Response 1002) flaky_final = None \<and>
            step demo_config T_flaky (RetryTimer 1002) flaky_final = None) \<and>
         filter (prefix (log_prefix 1002)) (errorLog flaky_final) =
           (if terminal st then [error_line 1002 (message e)] else [])"
    using exhaustion_failed [OF b flaky_run r tr] by blast
  have ee: "e = transient_error"
    using e t M by simp
  have 1: "step demo_config T_flaky (Response 1002) flaky_final = None \<and>
      step demo_config T_flaky (RetryTimer 1002) flaky_final = None \<and>
      filter (prefix (log_prefix 1002)) (errorLog flaky_final) =
        [''Error fetching owner for token ID 1002: request timeout'' @ [CHR 0x0A]]"
    using A [rule_format, OF m] el unfolding ee by simp
  obtain e' where e': "T_flaky 1002 (maxAttempts (retryOpts demo_config)) = Inl e'"
    and B: "\<exists>evs' s'. exec demo_config T_flaky evs' (init demo_config) = Some s' \<and>
         phase s' = Finished \<and>
         map_of (fetchers s') 1002 =
           Some (Failed (maxAttempts (retryOpts demo_config)) (message e')) \<and>
         filter (prefix (log_prefix 1002)) (errorLog s') = [error_line 1002 (message e')]"
    and C: "\<forall>st. map_of (fetchers (init demo_config)) 1002 = Some st \<longrightarrow>
         (\<forall>k. st = InFlight k \<longrightarrow>
            (\<exists>s'. step demo_config T_flaky (Response 1002) (init demo_config) = Some s' \<and>
               map_of (fetchers s') 1002 =
                 Some (if k < maxAttempts (retryOpts demo_config)
                       then RetryScheduled k (nextDelay (retryOpts demo_config) k)
                       else Failed (maxAttempts (retryOpts demo_config)) (message e'))))"
    using exhaustion_failed [OF b e0 r tr] by blast
  have ee': "e' = transient_error"
    using e' t M by simp
  have 2: "\<exists>evs' s'. exec demo_config T_flaky evs' (init demo_config) = Some s' \<and>
      phase s' = Finished \<and>
      map_of (fetchers s') 1002 = Some (Failed 11 ''request timeout'') \<and>
      filter (prefix (log_prefix 1002)) (errorLog s') =
        [''Error fetching owner for token ID 1002: request timeout'' @ [CHR 0x0A]]"
    using B unfolding ee' M mt el2 .
  have "\<exists>s'. step demo_config T_flaky (Response 1002) (init demo_config) = Some s' \<and>
      map_of (fetchers s') 1002 =
        Some (if (1::nat) < maxAttempts (retryOpts demo_config)
              then RetryScheduled 1 (nextDelay (retryOpts demo_config) 1)
              else Failed (maxAttempts (retryOpts demo_config)) (message e'))"
    using C [rule_format, OF m0] by blast
  then have 3: "\<exists>s'. step demo_config T_flaky (Response 1002) (init demo_config) = Some s' \<and>
      map_of (fetchers s') 1002 = Some (RetryScheduled 1 1000)"
    unfolding M nd by simp
  show ?thesis
    using b r flaky_run f m t classify_transient_error M 1 e0 m0 2 3 by blast
qed

subsection \<open>Isolation of failures and exit code\<close>

text \<open>
  Claim C7. A failure of the ABI load ends the process with code 1 and nothing fetched.
  Otherwise a run that has returned ends it with code 0, whatever the tokens' outcomes:
  every token of the range, in the batch of a failed token and in the later batches, has
  the outcome of its own fetch, which depends on the answers to its own calls only. Such
  a run exists. The answer to a call of one token changes neither the fetch of another
  token nor the loop variable, the batch or the phase of the run.
\<close>

theorem failures_isolated:
  assumes "0 < batchSize cfg"
  shows "run_script (AbiLoadFailed msg) cfg T evs = Some (1, None) \<and>
    (\<forall>c r. run_script AbiLoaded cfg T evs = Some (c, r) \<longrightarrow>
       c = 0 \<and>
       (\<exists>s. r = Some s \<and> exec cfg T evs (init cfg) = Some s \<and> phase s = Finished \<and>
          fetchers s = map (\<lambda>j. (j, fetchItem (retryOpts cfg) T j))
            [startTokenId cfg .. endTokenId cfg])) \<and>
    (\<exists>evs' s. run_script AbiLoaded cfg T evs' = Some (0, Some s)) \<and>
    (\<forall>s j s' j'. step cfg T (Response j) s = Some s' \<and> j' \<noteq> j \<longrightarrow>
       map_of (fetchers s') j' = map_of (fetchers s) j' \<and> phase s' = phase s \<and>
       loop_i s' = loop_i s \<and> batchPromises s' = batchPromises s) \<and>
    (\<forall>T' j. (\<forall>k. T' j k = T j k) \<longrightarrow>
       fetchItem (retryOpts cfg) T' j = fetchItem (retryOpts cfg) T j)"
proof -
  have a: "run_script (AbiLoadFailed msg) cfg T evs = Some (1, None)"
    by (simp add: run_script_def)
  have b: "c = 0 \<and>
       (\<exists>s. r = Some s \<and> exec cfg T evs (init cfg) = Some s \<and> phase s = Finished \<and>
          fetchers s = map (\<lambda>j. (j, fetchItem (retryOpts cfg) T j))
            [startTokenId cfg .. endTokenId cfg])"
    if "run_script AbiLoaded cfg T evs = Some (c, r)" for c r
  proof -
    have "exec cfg T evs (init cfg) \<noteq> None"
      using that by (auto simp: run_script_def split: option.splits)
    then obtain s where s: "exec cfg T evs (init cfg) = Some s"
      by auto
    have f: "phase s = Finished" and cr: "c = 0" "r = Some s"
      using that s by (simp_all add: run_script_def split: if_splits)
    note s = s f
    show ?thesis
      using s cr finished_fetchers [OF assms s] by simp
  qed
  obtain evs' s where "exec cfg T evs' (init cfg) = Some s" "phase s = Finished"
    using run_completes [OF assms wf_init [OF assms] items_ok_init] by blast
  then have c: "\<exists>evs' s. run_script AbiLoaded cfg T evs' = Some (0, Some s)"
    by (auto simp: run_script_def intro!: exI [of _ evs'])
  show ?thesis
    using a b c response_frame fetchItem_own_calls by blast
qed

theorem failures_isolated_witness:
  "0 < batchSize demo_config \<and>
   run_script (AbiLoadFailed ''ENOENT: no such file or directory'') demo_config T_flaky flaky_schedule =
     Some (1, None) \<and>
   run_script AbiLoaded demo_config T_flaky flaky_schedule = Some (0, Some flaky_final) \<and>
   fetchers flaky_final =
     [(1001, Succeeded 1 ''0xA''), (1002, Failed 11 ''request timeout''),
      (1003, Succeeded 1 ''0xA'')] \<and>
   fetchers flaky_final = map (\<lambda>j. (j, fetchItem (retryOpts demo_config) T_flaky j))
     [startTokenId demo_config .. endTokenId demo_config]"
proof -
  have b: "0 < batchSize demo_config" by simp
  have r: "run_script AbiLoaded demo_config T_flaky flaky_schedule = Some (0, Some flaky_final)"
    by (simp add: run_script_def flaky_run) (simp add: flaky_final_def)
  have f: "fetchers flaky_final =
     [(1001, Succeeded 1 ''0xA''), (1002, Failed 11 ''request timeout''),
      (1003, Succeeded 1 ''0xA'')]"
    by (simp add: flaky_final_def)
  note R = failures_isolated [OF b, of "''ENOENT: no such file or directory''" T_flaky flaky_schedule]
  have 1: "run_script (AbiLoadFailed ''ENOENT: no such file or directory'') demo_config T_flaky
      flaky_schedule = Some (1, None)"
    using R by blast
  have "\<exists>s. Some flaky_final = Some s \<and> fetchers s =
      map (\<lambda>j. (j, fetchItem (retryOpts demo_config) T_flaky j))
        [startTokenId demo_config .. endTokenId demo_config]"
    using R r by blast
  then have 2: "fetchers flaky_final =
      map (\<lambda>j. (j, fetchItem (retryOpts demo_config) T_flaky j))
        [startTokenId demo_config .. endTokenId demo_config]"
    by simp
  show ?thesis
    using b 1 r f 2 by blast
qed

subsection \<open>Batch size and the rows\<close>

text \<open>
  Claim C8 fails on \<^verbatim>\<open>get_nft_owners_by_id.mjs\<close> for the same reason. With the range and
  the transport fixed (every call succeeding), a run with batch size 1 and a run with
  batch size 10 return with different files: with batch size 10 the answer for token 1002
  can arrive first and its row is then the first of the file, with batch size 1 the first
  row is that of token 1001.
\<close>

theorem by_id_batch_size_changes_rows:
  "\<exists>evs1 s1 evs10 s10.
     exec (by_id_batch 1) T_ok evs1 (init (by_id_batch 1)) = Some s1 \<and> phase s1 = Finished \<and>
     exec (by_id_batch 10) T_ok evs10 (init (by_id_batch 10)) = Some s10 \<and> phase s10 = Finished \<and>
     take 1 (csv s1) = [(''0xA'', 1001)] \<and> take 1 (csv s10) = [(''0xA'', 1002)] \<and>
     csv s1 \<noteq> csv s10"
proof -
  obtain evs1 s1 where 1: "exec (by_id_batch 1) T_ok (Response 1001 # evs1) (init (by_id_batch 1)) = Some s1"
    "phase s1 = Finished" "take 1 (csv s1) = [(''0xA'', 1001)]"
    using first_row [of 1 1001] by auto
  obtain evs10 s10 where 2: "exec (by_id_batch 10) T_ok (Response 1002 # evs10) (init (by_id_batch 10)) = Some s10"
    "phase s10 = Finished" "take 1 (csv s10) = [(''0xA'', 1002)]"
    using first_row [of 10 1002] by auto
  have "csv s1 \<noteq> csv s10"
    using 1(3) 2(3) by auto
  then show ?thesis
    using 1 2 by blast
qed

subsection \<open>Bound on concurrent calls\<close>

text \<open>
  Claim C9. In every state of a run at most \<open>batchSize\<close> fetches are not terminal, so at
  most \<open>batchSize\<close> calls are in flight; the fetches that are not terminal are tokens of
  the current batch, which holds at most \<open>batchSize\<close> tokens; and an event starts new
  fetches only in a state in which every fetch started before is terminal.
\<close>

theorem bounded_in_flight:
  assumes "0 < batchSize cfg" and "exec cfg T evs (init cfg) = Some s"
  shows "length (filter (\<lambda>(j, st). \<not> terminal st) (fetchers s)) \<le> nat (batchSize cfg) \<and>
    length (filter (\<lambda>(j, st). in_flight st) (fetchers s)) \<le> nat (batchSize cfg) \<and>
    list_all (\<lambda>(j, st). \<not> terminal st \<longrightarrow> j \<in> set (batchPromises s)) (fetchers s) \<and>
    length (batchPromises s) \<le> nat (batchSize cfg) \<and>
    (\<forall>ev s'. step cfg T ev s = Some s' \<and> length (fetchers s) < length (fetchers s') \<longrightarrow>
       list_all (\<lambda>(j, st). terminal st) (fetchers s))"
proof -
  have w: "wf_state cfg s" using wf_reachable [OF assms] .
  have n: "length (filter (\<lambda>(j, st). \<not> terminal st) (fetchers s)) \<le> nat (batchSize cfg)"
    using nonterminal_count [OF assms(1) w] .
  have "length (filter (\<lambda>(j, st). in_flight st) (fetchers s))
      \<le> length (filter (\<lambda>(j, st). \<not> terminal st) (fetchers s))"
    by (intro filter_length_mono) (auto dest: in_flight_not_terminal)
  then have f: "length (filter (\<lambda>(j, st). in_flight st) (fetchers s)) \<le> nat (batchSize cfg)"
    using n by simp
  have b: "list_all (\<lambda>(j, st). \<not> terminal st \<longrightarrow> j \<in> set (batchPromises s)) (fetchers s)"
    using nonterminal_in_batch [OF w] by (auto simp: list_all_iff)
  have l: "list_all (\<lambda>(j, st). terminal st) (fetchers s)"
    if "step cfg T ev s = Some s'" "length (fetchers s) < length (fetchers s')" for ev s'
  proof (cases ev)
    case (Response j)
    then show ?thesis
      using that by (auto simp: set_item_def split: option.splits item_state.splits)
  next
    case (RetryTimer j)
    then show ?thesis
      using that by (auto simp: set_item_def split: option.splits item_state.splits)
  next
    case BatchSettled
    then show ?thesis using that by (auto split: if_splits)
  next
    case PacingTimer
    then have "phase s = Pacing" using that by (auto split: if_splits)
    then show ?thesis using w by (simp add: wf_state_def)
  qed
  show ?thesis
    using n f b batch_length [OF assms(1) w] l by blast
qed

theorem bounded_in_flight_witness:
  "0 < batchSize demo_config \<and>
   exec demo_config T_demo [Response 1002] (init demo_config) =
     Some (on_response demo_config 1002 1 (T_demo 1002 1) (init demo_config)) \<and>
   length (filter (\<lambda>(j, st). \<not> terminal st)
     (fetchers (on_response demo_config 1002 1 (T_demo 1002 1) (init demo_config)))) \<le> 2 \<and>
   exec demo_config T_demo [Response 1002, Response 1001, BatchSettled] (init demo_config) =
     Some demo_paced \<and>
   step demo_config T_demo PacingTimer demo_paced = Some demo_second \<and>
   length (fetchers demo_paced) < length (fetchers demo_second) \<and>
   list_all (\<lambda>(j, st). terminal st) (fetchers demo_paced)"
proof -
  have b: "0 < batchSize demo_config" by simp
  have e: "exec demo_config T_demo [Response 1002] (init demo_config) =
     Some (on_response demo_config 1002 1 (T_demo 1002 1) (init demo_config))"
    by (simp add: demo_init)
  have 1: "length (filter (\<lambda>(j, st). \<not> terminal st)
     (fetchers (on_response demo_config 1002 1 (T_demo 1002 1) (init demo_config)))) \<le> 2"
    using bounded_in_flight [OF b e] by simp
  have l: "length (fetchers demo_paced) < length (fetchers demo_second)"
    by (simp add: demo_paced_def demo_second_def)
  have 2: "list_all (\<lambda>(j, st). terminal st) (fetchers demo_paced)"
    using bounded_in_flight [OF b demo_paced_run] demo_second_step l by blast
  show ?thesis
    using b e 1 demo_paced_run demo_second_step l 2 by blast
qed

subsection \<open>Termination\<close>

text \<open>
  Claim C10. Whatever each call answers, a run cannot go on for ever: an order of events
  that the run can follow has at most \<open>(end - start + 1) * (2 * maxAttempts + 1) + 2\<close>
  events. A run that has not returned can always take a step, so no barrier waits for
  ever, and it can be continued to the end; once the run has returned no event can occur
  and every fetch is terminal. Every fetch has made at least one and at most
  \<open>maxAttempts\<close> attempts. Each answer of a call either settles the token (owner found,
  invalid id, or retries exhausted: the three branches that resolve the promise) or
  schedules a retry within the budget.
\<close>

theorem run_terminates:
  assumes "0 < batchSize cfg" and "exec cfg T evs (init cfg) = Some s"
  shows "length evs \<le>
      nat (endTokenId cfg - startTokenId cfg + 1) * (2 * maxAttempts (retryOpts cfg) + 1) + 2 \<and>
    (phase s \<noteq> Finished \<longrightarrow> (\<exists>ev s'. step cfg T ev s = Some s')) \<and>
    (\<exists>evs' s'. exec cfg T evs' s = Some s' \<and> phase s' = Finished) \<and>
    (phase s = Finished \<longrightarrow>
       (\<forall>ev. step cfg T ev s = None) \<and> list_all (\<lambda>(j, st). terminal st) (fetchers s)) \<and>
    list_all (\<lambda>(j, st). 1 \<le> attemptsMade st \<and> attemptsMade st \<le> maxAttempts (retryOpts cfg))
      (fetchers s) \<and>
    (\<forall>k r. terminal (settle (retryOpts cfg) k r) \<or>
       settle (retryOpts cfg) k r = RetryScheduled k (nextDelay (retryOpts cfg) k) \<and>
       k < maxAttempts (retryOpts cfg))"
proof -
  have w: "wf_state cfg s" using wf_reachable [OF assms] .
  have ok: "items_ok cfg T s" using items_ok_reachable [OF assms(2)] .
  have "length evs + remaining cfg s \<le> remaining cfg (init cfg)"
    using remaining_exec [OF assms(1) wf_init [OF assms(1)] items_ok_init assms(2)] .
  then have a: "length evs \<le>
      nat (endTokenId cfg - startTokenId cfg + 1) * (2 * maxAttempts (retryOpts cfg) + 1) + 2"
    using remaining_init [OF assms(1)] by linarith
  have b: "phase s \<noteq> Finished \<Longrightarrow> \<exists>ev s'. step cfg T ev s = Some s'"
    using step_enabled [OF w] .
  have c: "\<exists>evs' s'. exec cfg T evs' s = Some s' \<and> phase s' = Finished"
    using run_completes [OF assms(1) w ok] .
  have d: "(\<forall>ev. step cfg T ev s = None) \<and> list_all (\<lambda>(j, st). terminal st) (fetchers s)"
    if "phase s = Finished"
    using finished_final [OF w that] w that by (simp add: wf_state_def)
  have "1 \<le> attemptsMade st \<and> attemptsMade st \<le> maxAttempts (retryOpts cfg)"
    if "item_ok (retryOpts cfg) st" for st
    using that by (cases st) simp_all
  then have e: "list_all (\<lambda>(j, st). 1 \<le> attemptsMade st \<and>
      attemptsMade st \<le> maxAttempts (retryOpts cfg)) (fetchers s)"
    using ok unfolding items_ok_def list_all_iff by fast
  have f: "terminal (settle (retryOpts cfg) k r) \<or>
       settle (retryOpts cfg) k r = RetryScheduled k (nextDelay (retryOpts cfg) k) \<and>
       k < maxAttempts (retryOpts cfg)" for k r
    by (auto simp: settle_def isExhausted_def split: sum.splits)
  show ?thesis
    using a b c d e f by blast
qed

theorem run_terminates_witness:
  "0 < batchSize demo_config \<and>
   exec demo_config T_demo demo_schedule (init demo_config) = Some demo_final \<and>
   phase demo_final = Finished \<and>
   length demo_schedule \<le> 71 \<and>
   step demo_config T_demo (Response 1001) demo_final = None \<and>
   step demo_config T_demo PacingTimer demo_final = None \<and>
   list_all (\<lambda>(j, st). terminal st) (fetchers demo_final) \<and>
   list_all (\<lambda>(j, st). attemptsMade st \<le> 11) (fetchers demo_final) \<and>
   exec demo_config T_demo [Response 1002, Response 1001, BatchSettled] (init demo_config) =
     Some demo_paced \<and>
   phase demo_paced \<noteq> Finished \<and>
   (\<exists>ev s'. step demo_config T_demo ev demo_paced = Some s') \<and>
   (\<exists>evs' s'. exec demo_config T_demo evs' demo_paced = Some s' \<and> phase s' = Finished)"
proof -
  have b: "0 < batchSize demo_config" by simp
  have f: "phase demo_final = Finished" by (simp add: demo_final_def)
  have m: "maxAttempts retryOptions = 11"
    by (simp add: maxAttempts_def retryOptions_def)
  have 1: "list_all (\<lambda>(j, st). attemptsMade st \<le> 11) (fetchers demo_final)"
    by (simp add: demo_final_def)
  note R = run_terminates [OF b demo_run]
  have "length demo_schedule \<le>
      nat (endTokenId demo_config - startTokenId demo_config + 1) *
        (2 * maxAttempts (retryOpts demo_config) + 1) + 2"
    using R by blast
  then have 2: "length demo_schedule \<le> 71"
    using m by simp
  have 3: "(\<forall>ev. step demo_config T_demo ev demo_final = None) \<and>
      list_all (\<lambda>(j, st). terminal st) (fetchers demo_final)"
    using R f by blast
  have nf: "phase demo_paced \<noteq> Finished" by (simp add: demo_paced_def)
  note P = run_terminates [OF b demo_paced_run]
  have 4: "\<exists>ev s'. step demo_config T_demo ev demo_paced = Some s'"
    using P nf by blast
  have 5: "\<exists>evs' s'. exec demo_config T_demo evs' demo_paced = Some s' \<and> phase s' = Finished"
    using P by blast
  show ?thesis
    using 1 2 3 4 5 nf b demo_run demo_paced_run f by blast
qed

end
